theory Spec2Isabelle
  imports Main "HOL-Library.AList"
begin

section \<open>Decoded JSON values and Python equality\<close>

text \<open>
  Every request body is decoded by \<^verbatim>\<open>json.loads\<close>. The decoded values are modelled
  by the datatype below: \<open>JNull\<close> is Python's \<^verbatim>\<open>None\<close>, a decoded object is an
  association list whose first binding of a key is the one the dictionary holds.
  Floating point numbers are not represented.
\<close>

datatype json =
    JNull
  | JBool bool
  | JInt int
  | JStr string
  | JList "json list"
  | JDict "(string \<times> json) list"

text \<open>
  Python's \<^verbatim>\<open>==\<close> on decoded values: \<^verbatim>\<open>bool\<close> is a subclass of \<^verbatim>\<open>int\<close>
  (\<^verbatim>\<open>True == 1\<close>), lists compare element by element, dictionaries compare as
  finite maps, and values of different kinds are unequal.
\<close>

lemma size_map_of_json:
  "map_of xs k = Some (v :: json) \<Longrightarrow> size v < Suc (size_list (size_prod (\<lambda>x. 0) size) xs)"
  by (induction xs) (auto split: if_splits)

lemma size_member_json:
  "(z :: json) \<in> set xs \<Longrightarrow> size z < Suc (size_list size xs)"
  by (induction xs) auto

function py_eq :: "json \<Rightarrow> json \<Rightarrow> bool" where
  "py_eq JNull JNull = True"
| "py_eq (JBool a) (JBool b) = (a = b)"
| "py_eq (JBool a) (JInt n) = ((if a then 1 else 0) = n)"
| "py_eq (JInt m) (JBool b) = (m = (if b then 1 else 0))"
| "py_eq (JInt m) (JInt n) = (m = n)"
| "py_eq (JStr s) (JStr t) = (s = t)"
| "py_eq (JList xs) (JList ys) = list_all2 py_eq xs ys"
| "py_eq (JDict xs) (JDict ys) =
     ((\<forall>kv \<in> set xs. case map_of ys (fst kv) of
                         None \<Rightarrow> False
                       | Some w \<Rightarrow> (case map_of xs (fst kv) of
                                      None \<Rightarrow> False
                                    | Some v \<Rightarrow> py_eq v w))
      \<and> (\<forall>kv \<in> set ys. map_of xs (fst kv) \<noteq> None))"
| "py_eq JNull (JBool b) = False"
| "py_eq JNull (JInt n) = False"
| "py_eq JNull (JStr t) = False"
| "py_eq JNull (JList ys) = False"
| "py_eq JNull (JDict ys) = False"
| "py_eq (JBool a) JNull = False"
| "py_eq (JBool a) (JStr t) = False"
| "py_eq (JBool a) (JList ys) = False"
| "py_eq (JBool a) (JDict ys) = False"
| "py_eq (JInt m) JNull = False"
| "py_eq (JInt m) (JStr t) = False"
| "py_eq (JInt m) (JList ys) = False"
| "py_eq (JInt m) (JDict ys) = False"
| "py_eq (JStr s) JNull = False"
| "py_eq (JStr s) (JBool b) = False"
| "py_eq (JStr s) (JInt n) = False"
| "py_eq (JStr s) (JList ys) = False"
| "py_eq (JStr s) (JDict ys) = False"
| "py_eq (JList xs) JNull = False"
| "py_eq (JList xs) (JBool b) = False"
| "py_eq (JList xs) (JInt n) = False"
| "py_eq (JList xs) (JStr t) = False"
| "py_eq (JList xs) (JDict ys) = False"
| "py_eq (JDict xs) JNull = False"
| "py_eq (JDict xs) (JBool b) = False"
| "py_eq (JDict xs) (JInt n) = False"
| "py_eq (JDict xs) (JStr t) = False"
| "py_eq (JDict xs) (JList ys) = False"
  by pat_completeness auto
termination
  by (relation "measure (\<lambda>p. size (fst p))") (auto dest: size_map_of_json size_member_json)


section \<open>Exceptions, subscripts and response bodies\<close>

text \<open>
  The exceptions a handler can raise. \<open>Failure\<close> stands for whatever the strategy
  factory raises for an identifier it cannot resolve (the specification's
  \<^verbatim>\<open>UnknownStrategy\<close>) and for a failing strategy hook.
\<close>

datatype error =
    KeyError string
  | TypeError
  | AttributeError
  | ValueError
  | IndexError
  | Failure string

text \<open>\<^verbatim>\<open>payload[key]\<close> with a string key: defined on dictionaries that hold the key only.\<close>

fun subscript :: "json \<Rightarrow> string \<Rightarrow> error + json" where
  "subscript (JDict kvs) k = (case map_of kvs k of None \<Rightarrow> Inl (KeyError k) | Some v \<Rightarrow> Inr v)"
| "subscript _ k = Inl TypeError"

text \<open>
  What a handler writes for one request: the call of \<^verbatim>\<open>start_response\<close> with its
  status line, and the items put on the request's \<^verbatim>\<open>body\<close> queue
  (\<open>BodyStop\<close> is the \<^verbatim>\<open>StopIteration\<close> marker that ends the body).
\<close>

datatype out = StartResponse string | BodyPut string | BodyStop

definition CRLF :: string where
  "CRLF = [CHR 0x0D, CHR 0x0A]"

definition forbidden_credentials :: "out list" where
  "forbidden_credentials =
     [StartResponse ''403 Forbidden'',
      BodyPut (''Forbidden, incorrect credentials for this shard'' @ CRLF), BodyStop]"

definition forbidden_configured :: "out list" where
  "forbidden_configured =
     [StartResponse ''403 Forbidden'',
      BodyPut (''Forbidden, shard is already in a configured state'' @ CRLF), BodyStop]"

definition denied_configured :: "out list" where
  "denied_configured =
     [StartResponse ''404 Not Found'',
      BodyPut (''Denied, executor already in a configured state'' @ CRLF), BodyStop]"

definition ok_bokay :: "out list" where
  "ok_bokay = [StartResponse ''200 OK'', BodyPut (''Bokay'' @ CRLF), BodyStop]"

definition ok_goodbye :: "out list" where
  "ok_goodbye = [StartResponse ''200 OK'', BodyPut (''Goodbye'' @ CRLF), BodyStop]"

definition join_begin :: "out list" where
  "join_begin = [StartResponse ''200 OK'', BodyPut (''join queue...'' @ CRLF)]"

definition join_done :: "out list" where
  "join_done = [BodyPut (''done'' @ CRLF), BodyStop]"

section \<open>The Worker: fields and the handlers that never block\<close>

text \<open>
  The fields of \<^verbatim>\<open>Worker\<close> (service.py). \<open>server_stopped\<close> records that
  \<^verbatim>\<open>self.server.stop()\<close> has been called; \<open>task_event\<close> and \<open>task_queue\<close> hold the
  address of the current \<^verbatim>\<open>Event\<close> and \<^verbatim>\<open>JoinableQueue\<close> object, if any;
  \<open>'u\<close> is the type of UnitOfWork instances.
\<close>

record 'u worker =
  is_config :: bool
  server_stopped :: bool
  prefix :: json
  shard_id :: json
  ring :: json
  task_event :: "nat option"
  task_queue :: "nat option"
  uow :: "'u option"

definition Worker_init :: "'u worker" where
  "Worker_init = \<lparr> is_config = False, server_stopped = False, prefix = JNull, shard_id = JNull,
     ring = JNull, task_event = None, task_queue = None, uow = None \<rparr>"

text \<open>
  The test \<^verbatim>\<open>(self.prefix == payload["prefix"]) and (self.shard_id == payload["shard_id"])\<close>
  shared by \<^verbatim>\<open>auth_request\<close> and \<^verbatim>\<open>shard_stop\<close>: a missing key raises, and
  \<^verbatim>\<open>and\<close> does not look at the shard id when the prefix differs.
\<close>

definition creds_match :: "'u worker \<Rightarrow> json \<Rightarrow> error + bool" where
  "creds_match w payload =
     (case subscript payload ''prefix'' of
        Inl e \<Rightarrow> Inl e
      | Inr p \<Rightarrow>
          if \<not> py_eq (prefix w) p then Inr False
          else (case subscript payload ''shard_id'' of
                  Inl e \<Rightarrow> Inl e
                | Inr sid \<Rightarrow> Inr (py_eq (shard_id w) sid)))"

text \<open>
  The arguments of the \<^verbatim>\<open>logging.error\<close> call on the rejection path,
  \<^verbatim>\<open>payload["shard_id"]\<close> then \<^verbatim>\<open>payload["prefix"]\<close>: evaluating them can raise.
\<close>

definition log_rejected :: "json \<Rightarrow> error option" where
  "log_rejected payload =
     (case subscript payload ''shard_id'' of
        Inl e \<Rightarrow> Some e
      | Inr _ \<Rightarrow> (case subscript payload ''prefix'' of Inl e \<Rightarrow> Some e | Inr _ \<Rightarrow> None))"

text \<open>
  \<^verbatim>\<open>Worker.auth_request\<close>: what is written to the caller, and the value returned or
  the exception raised. The Worker is only read.
\<close>

definition auth_request :: "'u worker \<Rightarrow> json \<Rightarrow> out list \<times> (error + bool)" where
  "auth_request w payload =
     (case creds_match w payload of
        Inl e \<Rightarrow> ([], Inl e)
      | Inr True \<Rightarrow> ([], Inr True)
      | Inr False \<Rightarrow>
          (forbidden_credentials,
           case log_rejected payload of Some e \<Rightarrow> Inl e | None \<Rightarrow> Inr False))"

text \<open>
  \<^verbatim>\<open>Worker.shard_config\<close>. The two parameters stand for
  \<^verbatim>\<open>util.instantiate_class\<close> (not among the sources) and for the factory's
  \<^verbatim>\<open>instantiate_uow(uow_name, prefix)\<close>. The assignments made before an exception
  stay: the result carries the Worker as the exception leaves it.
\<close>

definition shard_config ::
  "(json \<Rightarrow> error + 'f) \<Rightarrow> ('f \<Rightarrow> json \<Rightarrow> json \<Rightarrow> error + 'u) \<Rightarrow>
   'u worker \<Rightarrow> json \<Rightarrow> 'u worker \<times> out list \<times> error option" where
  "shard_config instantiate_class instantiate_uow w payload =
     (if is_config w then (w, forbidden_configured, None)
      else
        (let w1 = w\<lparr>is_config := True\<rparr> in
         (case subscript payload ''prefix'' of
            Inl e \<Rightarrow> (w1, [], Some e)
          | Inr p \<Rightarrow>
             (let w2 = w1\<lparr>prefix := p\<rparr> in
              (case subscript payload ''shard_id'' of
                 Inl e \<Rightarrow> (w2, [], Some e)
               | Inr sid \<Rightarrow>
                  (let w3 = w2\<lparr>shard_id := sid\<rparr> in
                   (case subscript payload ''uow_name'' of
                      Inl e \<Rightarrow> (w3, [], Some e)
                    | Inr uow_name \<Rightarrow>
                       (case instantiate_class uow_name of
                          Inl e \<Rightarrow> (w3, [], Some e)
                        | Inr ff \<Rightarrow>
                           (case instantiate_uow ff uow_name (prefix w3) of
                              Inl e \<Rightarrow> (w3, [], Some e)
                            | Inr u \<Rightarrow> (w3\<lparr>uow := Some u\<rparr>, ok_bokay, None))))))))))"

text \<open>\<^verbatim>\<open>Worker.shard_stop\<close>, run one second after the route has answered \<^verbatim>\<open>Goodbye\<close>.\<close>

definition shard_stop :: "'u worker \<Rightarrow> json \<Rightarrow> 'u worker \<times> error option" where
  "shard_stop w payload =
     (case creds_match w payload of
        Inl e \<Rightarrow> (w, Some e)
      | Inr True \<Rightarrow> (w\<lparr>server_stopped := True\<rparr>, None)
      | Inr False \<Rightarrow> (w, log_rejected payload))"

text \<open>\<^verbatim>\<open>Worker.ring_init\<close>.\<close>

definition ring_init :: "'u worker \<Rightarrow> json \<Rightarrow> 'u worker \<times> out list \<times> error option" where
  "ring_init w payload =
     (case auth_request w payload of
        (os, Inl e) \<Rightarrow> (w, os, Some e)
      | (os, Inr False) \<Rightarrow> (w, os, None)
      | (os, Inr True) \<Rightarrow>
          (case subscript payload ''ring'' of
             Inl e \<Rightarrow> (w, os, Some e)
           | Inr r \<Rightarrow> (w\<lparr>ring := r\<rparr>, os @ ok_bokay, None)))"

section \<open>The Executor of executor.py\<close>

record 'p executor =
  ex_is_config :: bool
  ex_prefix :: json
  ex_shard_id :: json
  ex_hash_ring :: json
  ex_ff_name :: json
  ex_pop :: "'p option"

text \<open>\<^verbatim>\<open>Executor.shard_config\<close>: the same test of \<open>is_config\<close>, answered with 404, and no strategy.\<close>

definition executor_shard_config ::
  "'p executor \<Rightarrow> json \<Rightarrow> 'p executor \<times> out list \<times> error option" where
  "executor_shard_config x payload =
     (if ex_is_config x then (x, denied_configured, None)
      else
        (let x1 = x\<lparr>ex_is_config := True\<rparr> in
         (case subscript payload ''prefix'' of
            Inl e \<Rightarrow> (x1, [], Some e)
          | Inr p \<Rightarrow>
             (let x2 = x1\<lparr>ex_prefix := p\<rparr> in
              (case subscript payload ''shard_id'' of
                 Inl e \<Rightarrow> (x2, [], Some e)
               | Inr sid \<Rightarrow> (x2\<lparr>ex_shard_id := sid\<rparr>, ok_bokay, None))))))"


section \<open>The Framework: shard identities and the registry\<close>

text \<open>Python's \<^verbatim>\<open>str\<close> on a non-negative integer: its decimal digits, most significant first.\<close>

definition digit_char :: "nat \<Rightarrow> char" where
  "digit_char d = ''0123456789'' ! d"

fun str_nat :: "nat \<Rightarrow> string" where
  "str_nat n = (if n < 10 then [digit_char n] else str_nat (n div 10) @ [digit_char (n mod 10)])"

declare str_nat.simps [simp del]

text \<open>
  \<^verbatim>\<open>Framework._gen_shard_id(i, n)\<close>. The padding is one \<^verbatim>\<open>'0'\<close> for each element of
  \<^verbatim>\<open>xrange(len(str(n)) - len(s))\<close>, which is empty when the difference is negative,
  as the truncating subtraction of \<open>nat\<close> is.
\<close>

definition gen_shard_id :: "nat \<Rightarrow> nat \<Rightarrow> string" where
  "gen_shard_id i n =
     (let s = str_nat i;
          z = replicate (length (str_nat n) - length s) CHR ''0''
      in ''shard/'' @ z @ s)"

text \<open>
  The fields of \<^verbatim>\<open>Framework\<close>. The registry \<^verbatim>\<open>_shard_assoc\<close> is a dictionary from
  shard id to the pair of the worker's address and its descriptor; it is modelled
  as an association list with distinct keys, in insertion order. Python 2 iterates a
  dictionary in an order of its own, the same at every iteration of an unchanged
  dictionary.
\<close>

record ('u, 'i) framework =
  fw_prefix :: string
  fw_uow_name :: string
  fw_uow :: 'u
  shard_assoc :: "(string \<times> string \<times> 'i option) list option"
  fw_ring :: "(string \<times> string) list option"

text \<open>
  The body of the loop of \<^verbatim>\<open>set_worker_list\<close> for the indices still to visit.
  \<^verbatim>\<open>not exe_info\<close> holds for \<^verbatim>\<open>None\<close> and for the empty list; an index past the
  end of a list raises \<^verbatim>\<open>IndexError\<close>, and the entries stored before it stay.
\<close>

fun set_worker_loop ::
  "string list \<Rightarrow> 'i list option \<Rightarrow> nat list \<Rightarrow> (string \<times> string \<times> 'i option) list \<Rightarrow>
   (string \<times> string \<times> 'i option) list \<times> error option" where
  "set_worker_loop worker_list exe_info [] assoc = (assoc, None)"
| "set_worker_loop worker_list exe_info (i # rest) assoc =
     (let sid = gen_shard_id i (length worker_list) in
      (case (if exe_info = Some [] then None else exe_info) of
         None \<Rightarrow>
           if i < length worker_list
           then set_worker_loop worker_list exe_info rest
                  (AList.update sid (worker_list ! i, None) assoc)
           else (assoc, Some IndexError)
       | Some infos \<Rightarrow>
           if i < length worker_list \<and> i < length infos
           then set_worker_loop worker_list exe_info rest
                  (AList.update sid (worker_list ! i, Some (infos ! i)) assoc)
           else (assoc, Some IndexError)))"

text \<open>
  \<^verbatim>\<open>Framework.set_worker_list\<close>: a fresh dictionary, filled for
  \<^verbatim>\<open>i in xrange(len(worker_list))\<close>.
\<close>

definition set_worker_list ::
  "('u, 'i) framework \<Rightarrow> string list \<Rightarrow> 'i list option \<Rightarrow> ('u, 'i) framework \<times> error option" where
  "set_worker_list fw worker_list exe_info =
     (case set_worker_loop worker_list exe_info [0 ..< length worker_list] [] of
        (assoc, err) \<Rightarrow> (fw\<lparr>shard_assoc := Some assoc\<rparr>, err))"

text \<open>
  The descriptor stored with the address at index \<open>i\<close>: none when \<^verbatim>\<open>exe_info\<close> is
  \<^verbatim>\<open>None\<close> or empty, else \<^verbatim>\<open>exe_info[i]\<close>.
\<close>

definition descriptor :: "'i list option \<Rightarrow> nat \<Rightarrow> 'i option" where
  "descriptor exe_info i =
     (case exe_info of None \<Rightarrow> None | Some infos \<Rightarrow> if infos = [] then None else Some (infos ! i))"

text \<open>The number a string of decimal digits denotes, used to tell shard ids apart.\<close>

definition digit_val :: "char \<Rightarrow> nat" where
  "digit_val c = of_char c - 48"

definition dec_val :: "string \<Rightarrow> nat" where
  "dec_val s = foldl (\<lambda>a c. 10 * a + digit_val c) 0 s"

section \<open>The Framework: requests to every shard, and the barrier\<close>

text \<open>
  \<^verbatim>\<open>util.post_distrib_rest(prefix, shard_id, shard_uri, path, base_msg)\<close> is not among
  the sources. It is a parameter: a function of the state \<open>'n\<close> of the network and of
  its five arguments that gives the lines of the response, or raises, and the next
  state of the network. The call returns when the response has been read.
\<close>

record rest_call =
  rc_prefix :: string
  rc_shard_id :: string
  rc_uri :: string
  rc_path :: string
  rc_msg :: json

type_synonym 'n post_distrib_rest = "'n \<Rightarrow> rest_call \<Rightarrow> (error + string list) \<times> 'n"

text \<open>
  What the coordinator does on the network, in order: \<open>Sent\<close> when
  \<^verbatim>\<open>post_distrib_rest\<close> is called for a shard and a path, \<open>Received\<close> when it returns
  the lines, \<open>Raised\<close> when it raises.
\<close>

datatype event =
    Sent string string
  | Received string string "string list"
  | Raised string string error

text \<open>
  The loop of \<^verbatim>\<open>send_ring_rest\<close> over the items of the registry. \<^verbatim>\<open>lines[0]\<close> raises
  \<^verbatim>\<open>IndexError\<close> on an empty response. The result is the list \<^verbatim>\<open>json_str\<close> or the
  exception, the network, and the events in order.
\<close>

fun send_ring_items ::
  "'n post_distrib_rest \<Rightarrow> string \<Rightarrow> string \<Rightarrow> json \<Rightarrow> (string \<times> string \<times> 'i option) list \<Rightarrow> 'n \<Rightarrow>
   (error + string list) \<times> 'n \<times> event list" where
  "send_ring_items post pfx path base_msg [] n = (Inr [], n, [])"
| "send_ring_items post pfx path base_msg ((sid, uri, exe_info) # rest) n =
     (case post n \<lparr>rc_prefix = pfx, rc_shard_id = sid, rc_uri = uri,
                    rc_path = path, rc_msg = base_msg\<rparr> of
        (Inl e, n1) \<Rightarrow> (Inl e, n1, [Sent sid path, Raised sid path e])
      | (Inr [], n1) \<Rightarrow> (Inl IndexError, n1, [Sent sid path, Received sid path []])
      | (Inr (l # ls), n1) \<Rightarrow>
          (case send_ring_items post pfx path base_msg rest n1 of
             (Inl e, n2, tr) \<Rightarrow>
               (Inl e, n2, Sent sid path # Received sid path (l # ls) # tr)
           | (Inr json_str, n2, tr) \<Rightarrow>
               (Inr (l # json_str), n2,
                Sent sid path # Received sid path (l # ls) # tr)))"

definition send_ring_rest ::
  "'n post_distrib_rest \<Rightarrow> ('u, 'i) framework \<Rightarrow> string \<Rightarrow> json \<Rightarrow> 'n \<Rightarrow>
   (error + string list) \<times> 'n \<times> event list" where
  "send_ring_rest post fw path base_msg n =
     (case shard_assoc fw of
        None \<Rightarrow> (Inl AttributeError, n, [])
      | Some assoc \<Rightarrow> send_ring_items post (fw_prefix fw) path base_msg assoc n)"

text \<open>\<^verbatim>\<open>Framework.phase_barrier\<close>: the exception if any, the network, the events in order.\<close>

definition phase_barrier ::
  "'n post_distrib_rest \<Rightarrow> ('u, 'i) framework \<Rightarrow> 'n \<Rightarrow> error option \<times> 'n \<times> event list" where
  "phase_barrier post fw n =
     (case send_ring_rest post fw ''queue/wait'' (JDict []) n of
        (Inl e, n1, tr1) \<Rightarrow> (Some e, n1, tr1)
      | (Inr _, n1, tr1) \<Rightarrow>
          (case send_ring_rest post fw ''queue/join'' (JDict []) n1 of
             (Inl e, n2, tr2) \<Rightarrow> (Some e, n2, tr1 @ tr2)
           | (Inr _, n2, tr2) \<Rightarrow> (None, n2, tr1 @ tr2)))"

text \<open>
  Of a list of events: the path of an event, the requests sent (shard and path), and
  the acknowledgements, that is the responses that had a first line.
\<close>

fun ev_path :: "event \<Rightarrow> string" where
  "ev_path (Sent sid path) = path"
| "ev_path (Received sid path ls) = path"
| "ev_path (Raised sid path e) = path"

fun requests :: "event list \<Rightarrow> (string \<times> string) list" where
  "requests [] = []"
| "requests (Sent sid path # tr) = (sid, path) # requests tr"
| "requests (_ # tr) = requests tr"

fun acks :: "event list \<Rightarrow> (string \<times> string) list" where
  "acks [] = []"
| "acks (Received sid path (l # ls) # tr) = (sid, path) # acks tr"
| "acks (_ # tr) = acks tr"

section \<open>The Worker under gevent: greenlets, queues and events\<close>

text \<open>
  A Worker runs on gevent: one thread, and greenlets that run until they block. A
  greenlet that has been spawned runs later, when the hub switches to it, and from then
  on nothing else runs until it blocks or ends. The places where the Worker's own
  greenlets block are \<^verbatim>\<open>Event.wait\<close>, \<^verbatim>\<open>JoinableQueue.join\<close>,
  \<^verbatim>\<open>JoinableQueue.get\<close> on an empty queue, and the strategy's \<^verbatim>\<open>perform_task\<close>,
  which may block anywhere. The state of the system is the Worker's fields, the queue
  and event objects created so far (an object's address is its index), and the
  greenlets.

  gevent is a library, not part of the sources: its primitives are taken as documented.
  \<^verbatim>\<open>wait\<close> returns when the flag of the event is set; \<^verbatim>\<open>get\<close> returns the first
  item; \<^verbatim>\<open>put_nowait\<close> on an unbounded queue appends and counts the item.
  \<^verbatim>\<open>JoinableQueue.join\<close> waits on a condition of the queue, an \<^verbatim>\<open>Event\<close> that
  \<^verbatim>\<open>put\<close> clears and that \<^verbatim>\<open>task_done\<close> sets when it brings \<^verbatim>\<open>unfinished_tasks\<close>
  to zero (so the condition is set exactly when the count is zero): \<^verbatim>\<open>join\<close> returns at
  once when nothing is unfinished; otherwise the greenlet blocks, the \<^verbatim>\<open>task_done\<close>
  that brings the count to zero schedules every greenlet blocked in \<^verbatim>\<open>join\<close> at that
  moment, and a scheduled greenlet resumes when the hub switches to it, whatever has
  been put on the queue in between. The strategy is a parameter too:
  when \<^verbatim>\<open>perform_task\<close> returns or raises is left open, and the strategy acts on the
  Worker only through \<^verbatim>\<open>prep_task_queue\<close>, \<^verbatim>\<open>put_task_queue\<close> and
  \<^verbatim>\<open>wrap_task_event\<close>, at any moment. A request is one that the strategy's
  \<^verbatim>\<open>handle_endpoints\<close> has left to the built-in routes.

  A \<^verbatim>\<open>JoinableQueue\<close>: its items, and its count \<^verbatim>\<open>unfinished_tasks\<close>. The fields
  \<open>enq\<close> and \<open>taken\<close> are history kept for the statements only: every payload ever
  put, and every payload ever returned by \<^verbatim>\<open>get\<close>, in order.
\<close>

record jqueue =
  items :: "json list"
  unfinished :: nat
  enq :: "json list"
  taken :: "json list"

definition JoinableQueue :: jqueue where
  "JoinableQueue = \<lparr> items = [], unfinished = 0, enq = [], taken = [] \<rparr>"

definition put_nowait :: "json \<Rightarrow> jqueue \<Rightarrow> jqueue" where
  "put_nowait payload q =
     q\<lparr> items := items q @ [payload], unfinished := Suc (unfinished q), enq := enq q @ [payload] \<rparr>"

text \<open>\<^verbatim>\<open>JoinableQueue.task_done\<close> raises \<^verbatim>\<open>ValueError\<close> when nothing is unfinished.\<close>

definition task_done :: "jqueue \<Rightarrow> error + jqueue" where
  "task_done q = (if unfinished q = 0 then Inl ValueError else Inr (q\<lparr> unfinished := unfinished q - 1 \<rparr>))"

text \<open>
  The built-in routes of \<^verbatim>\<open>_response_handler\<close> that start a greenlet, and where a
  greenlet stands: a handler not yet run with its decoded payload; the consumer not yet
  run; blocked in \<^verbatim>\<open>wait\<close> on an event; blocked in \<^verbatim>\<open>join\<close> on a queue; scheduled
  to resume from \<^verbatim>\<open>join\<close> on a queue, by the \<^verbatim>\<open>task_done\<close> that set its condition;
  blocked in \<^verbatim>\<open>get\<close> on a queue; inside \<^verbatim>\<open>perform_task(payload)\<close>, with the queue the payload
  came from (history: the code does not keep it); ended, with the exception if any. The
  consumer's loop has no exit, so a consumer ends by an exception only: \<open>Crashed\<close>.
\<close>

datatype route = ShardConfig | ShardStop | RingInit | QueueWait | QueueJoin

datatype pc =
    Handler route json
  | ConsumerStart
  | WaitEvent nat
  | JoinWait nat
  | JoinWoken nat
  | BlockedGet nat
  | Perform nat json
  | Finished "error option"
  | Crashed error

record greenlet =
  pc :: pc
  resp :: "out list"

record 'u sys =
  worker_state :: "'u worker"
  queues :: "jqueue list"
  events :: "bool list"
  greenlets :: "greenlet list"

definition init_sys :: "'u sys" where
  "init_sys = \<lparr> worker_state = Worker_init, queues = [], events = [], greenlets = [] \<rparr>"

text \<open>Greenlet \<open>g\<close> writes \<open>os\<close> to its caller and moves to \<open>c\<close>.\<close>

definition goto :: "nat \<Rightarrow> pc \<Rightarrow> out list \<Rightarrow> 'u sys \<Rightarrow> 'u sys" where
  "goto g c os s =
     s\<lparr> greenlets := (greenlets s)[g := \<lparr> pc = c, resp = resp (greenlets s ! g) @ os \<rparr>] \<rparr>"

text \<open>
  \<^verbatim>\<open>Worker.queue_wait\<close> up to the point where it blocks or ends. \<^verbatim>\<open>Event.wait\<close>
  returns at once when the flag is set.
\<close>

definition queue_wait :: "nat \<Rightarrow> json \<Rightarrow> 'u sys \<Rightarrow> 'u sys" where
  "queue_wait g payload s =
     (case auth_request (worker_state s) payload of
        (os, Inl e) \<Rightarrow> goto g (Finished (Some e)) os s
      | (os, Inr False) \<Rightarrow> goto g (Finished None) os s
      | (os, Inr True) \<Rightarrow>
          (case task_event (worker_state s) of
             None \<Rightarrow> goto g (Finished None) (os @ ok_bokay) s
           | Some ev \<Rightarrow>
               if events s ! ev then goto g (Finished None) (os @ ok_bokay) s
               else goto g (WaitEvent ev) os s))"

text \<open>
  \<^verbatim>\<open>Worker.queue_join\<close> up to the point where it blocks or ends.
  \<^verbatim>\<open>self._task_queue.join()\<close> raises \<^verbatim>\<open>AttributeError\<close> when no queue has been
  prepared, and returns at once when nothing is unfinished.
\<close>

definition queue_join :: "nat \<Rightarrow> json \<Rightarrow> 'u sys \<Rightarrow> 'u sys" where
  "queue_join g payload s =
     (case auth_request (worker_state s) payload of
        (os, Inl e) \<Rightarrow> goto g (Finished (Some e)) os s
      | (os, Inr False) \<Rightarrow> goto g (Finished None) os s
      | (os, Inr True) \<Rightarrow>
          (case task_queue (worker_state s) of
             None \<Rightarrow> goto g (Finished (Some AttributeError)) (os @ join_begin) s
           | Some q \<Rightarrow>
               if unfinished (queues s ! q) = 0
               then goto g (Finished None) (os @ join_begin @ join_done) s
               else goto g (JoinWait q) (os @ join_begin) s))"

text \<open>
  The condition of queue \<open>q\<close> is set: a greenlet blocked in \<^verbatim>\<open>join\<close> on \<open>q\<close> is
  scheduled to resume.
\<close>

definition wake :: "nat \<Rightarrow> greenlet \<Rightarrow> greenlet" where
  "wake q gl = (if pc gl = JoinWait q then gl\<lparr> pc := JoinWoken q \<rparr> else gl)"

text \<open>
  The \<^verbatim>\<open>finally\<close> clause of \<^verbatim>\<open>_consume_task_queue\<close>:
  \<^verbatim>\<open>self._task_queue.task_done()\<close>, on the queue the field holds at that moment. When
  the call brings the count to zero it sets the condition of the queue.
\<close>

definition finally_task_done :: "'u sys \<Rightarrow> error + 'u sys" where
  "finally_task_done s =
     (case task_queue (worker_state s) of
        None \<Rightarrow> Inl AttributeError
      | Some q \<Rightarrow>
          (case task_done (queues s ! q) of
             Inl e \<Rightarrow> Inl e
           | Inr q' \<Rightarrow>
               Inr (s\<lparr> queues := (queues s)[q := q'],
                       greenlets := (if unfinished q' = 0 then map (wake q) (greenlets s)
                                     else greenlets s) \<rparr>)))"

text \<open>
  An exception \<open>e\<close> is leaving the \<^verbatim>\<open>try\<close> block: the \<^verbatim>\<open>finally\<close> clause runs, then
  the exception (or the one the clause itself raised) leaves the loop and ends the
  consumer.
\<close>

definition consumer_raise :: "nat \<Rightarrow> error \<Rightarrow> 'u sys \<Rightarrow> 'u sys" where
  "consumer_raise g e s =
     (case finally_task_done s of
        Inl e' \<Rightarrow> goto g (Crashed e') [] s
      | Inr s' \<Rightarrow> goto g (Crashed e) [] s')"

text \<open>
  \<^verbatim>\<open>get\<close> returns the first item of queue \<open>q\<close>, and the \<^verbatim>\<open>try\<close> block calls
  \<^verbatim>\<open>self._uow.perform_task(payload)\<close>: an \<^verbatim>\<open>AttributeError\<close> when no UnitOfWork is set.
\<close>

definition consumer_take :: "nat \<Rightarrow> nat \<Rightarrow> 'u sys \<Rightarrow> 'u sys" where
  "consumer_take g q s =
     (let jq = queues s ! q;
          payload = hd (items jq);
          s1 = s\<lparr> queues := (queues s)[q := jq\<lparr> items := tl (items jq), taken := taken jq @ [payload] \<rparr>] \<rparr>
      in case uow (worker_state s1) of
           None \<Rightarrow> consumer_raise g AttributeError s1
         | Some u \<Rightarrow> goto g (Perform q payload) [] s1)"

text \<open>
  The head of the loop, \<^verbatim>\<open>payload = self._task_queue.get()\<close>, on the queue the field
  holds at that moment: the consumer blocks on that queue object when it is empty.
\<close>

definition consumer_get :: "nat \<Rightarrow> 'u sys \<Rightarrow> 'u sys" where
  "consumer_get g s =
     (case task_queue (worker_state s) of
        None \<Rightarrow> goto g (Crashed AttributeError) [] s
      | Some q \<Rightarrow>
          if items (queues s ! q) = [] then goto g (BlockedGet q) [] s
          else consumer_take g q s)"

text \<open>\<^verbatim>\<open>perform_task\<close> has returned: the \<^verbatim>\<open>finally\<close> clause, then the loop goes on.\<close>

definition consumer_return :: "nat \<Rightarrow> 'u sys \<Rightarrow> 'u sys" where
  "consumer_return g s =
     (case finally_task_done s of
        Inl e' \<Rightarrow> goto g (Crashed e') [] s
      | Inr s' \<Rightarrow> consumer_get g s')"

text \<open>
  The hub switches to greenlet \<open>g\<close>, which runs until it blocks or ends. It
  switches to a greenlet blocked in \<^verbatim>\<open>join\<close> only once \<^verbatim>\<open>task_done\<close> has scheduled it;
  \<^verbatim>\<open>join\<close> then returns without looking at the count again.
\<close>

definition run ::
  "(json \<Rightarrow> error + 'f) \<Rightarrow> ('f \<Rightarrow> json \<Rightarrow> json \<Rightarrow> error + 'u) \<Rightarrow> nat \<Rightarrow> 'u sys \<Rightarrow> 'u sys" where
  "run instantiate_class instantiate_uow g s =
     (if g < length (greenlets s) then
        (case pc (greenlets s ! g) of
           Handler ShardConfig payload \<Rightarrow>
             (case shard_config instantiate_class instantiate_uow (worker_state s) payload of
                (w, os, err) \<Rightarrow> goto g (Finished err) os (s\<lparr> worker_state := w \<rparr>))
         | Handler ShardStop payload \<Rightarrow>
             (case shard_stop (worker_state s) payload of
                (w, err) \<Rightarrow> goto g (Finished err) [] (s\<lparr> worker_state := w \<rparr>))
         | Handler RingInit payload \<Rightarrow>
             (case ring_init (worker_state s) payload of
                (w, os, err) \<Rightarrow> goto g (Finished err) os (s\<lparr> worker_state := w \<rparr>))
         | Handler QueueWait payload \<Rightarrow> queue_wait g payload s
         | Handler QueueJoin payload \<Rightarrow> queue_join g payload s
         | ConsumerStart \<Rightarrow> consumer_get g s
         | WaitEvent ev \<Rightarrow> if events s ! ev then goto g (Finished None) ok_bokay s else s
         | JoinWait q \<Rightarrow> s
         | JoinWoken q \<Rightarrow> goto g (Finished None) join_done s
         | BlockedGet q \<Rightarrow> if items (queues s ! q) = [] then s else consumer_take g q s
         | Perform q payload \<Rightarrow> s
         | Finished err \<Rightarrow> s
         | Crashed e \<Rightarrow> s)
      else s)"

text \<open>
  What can happen next. \<open>Request\<close>: a request for one of the routes arrives and its
  greenlet is created (\<^verbatim>\<open>/shard/stop\<close> is answered \<^verbatim>\<open>Goodbye\<close> by the route itself).
  \<open>Run\<close>: the hub switches to a greenlet. \<open>TaskReturns\<close>, \<open>TaskRaises\<close>: the
  \<^verbatim>\<open>perform_task\<close> call of a consumer returns, or raises. The others are the calls the
  strategy makes on the Worker: \<^verbatim>\<open>prep_task_queue\<close>, \<^verbatim>\<open>put_task_queue\<close>, and entering
  and leaving the context of \<^verbatim>\<open>wrap_task_event\<close>. A call that raises in the strategy's
  greenlet (\<^verbatim>\<open>put_task_queue\<close> without a queue, leaving the context when the field is
  \<^verbatim>\<open>None\<close>) leaves the state as it is.
\<close>

datatype action =
    Request route json
  | Run nat
  | TaskReturns nat
  | TaskRaises nat error
  | PrepTaskQueue
  | PutTaskQueue json
  | EventBegin
  | EventEnd

fun step ::
  "(json \<Rightarrow> error + 'f) \<Rightarrow> ('f \<Rightarrow> json \<Rightarrow> json \<Rightarrow> error + 'u) \<Rightarrow> 'u sys \<Rightarrow> action \<Rightarrow> 'u sys" where
  "step ic iu s (Request r payload) =
     s\<lparr> greenlets := greenlets s @
          [\<lparr> pc = Handler r payload, resp = (if r = ShardStop then ok_goodbye else []) \<rparr>] \<rparr>"
| "step ic iu s (Run g) = run ic iu g s"
| "step ic iu s (TaskReturns g) =
     (if g < length (greenlets s) then
        (case pc (greenlets s ! g) of Perform q payload \<Rightarrow> consumer_return g s | _ \<Rightarrow> s)
      else s)"
| "step ic iu s (TaskRaises g e) =
     (if g < length (greenlets s) then
        (case pc (greenlets s ! g) of Perform q payload \<Rightarrow> consumer_raise g e s | _ \<Rightarrow> s)
      else s)"
| "step ic iu s PrepTaskQueue =
     s\<lparr> worker_state := (worker_state s)\<lparr> task_queue := Some (length (queues s)) \<rparr>,
        queues := queues s @ [JoinableQueue],
        greenlets := greenlets s @ [\<lparr> pc = ConsumerStart, resp = [] \<rparr>] \<rparr>"
| "step ic iu s (PutTaskQueue payload) =
     (case task_queue (worker_state s) of
        None \<Rightarrow> s
      | Some q \<Rightarrow> s\<lparr> queues := (queues s)[q := put_nowait payload (queues s ! q)] \<rparr>)"
| "step ic iu s EventBegin =
     s\<lparr> worker_state := (worker_state s)\<lparr> task_event := Some (length (events s)) \<rparr>,
        events := events s @ [False] \<rparr>"
| "step ic iu s EventEnd =
     (case task_event (worker_state s) of
        None \<Rightarrow> s
      | Some ev \<Rightarrow>
          s\<lparr> events := (events s)[ev := True],
             worker_state := (worker_state s)\<lparr> task_event := None \<rparr> \<rparr>)"

definition exec ::
  "(json \<Rightarrow> error + 'f) \<Rightarrow> ('f \<Rightarrow> json \<Rightarrow> json \<Rightarrow> error + 'u) \<Rightarrow> 'u sys \<Rightarrow> action list \<Rightarrow> 'u sys" where
  "exec ic iu s acts = foldl (step ic iu) s acts"

section \<open>Runs that replace the queue only when the Worker is idle\<close>

text \<open>
  A consumer is busy when it has been spawned and has not yet reached its first
  \<^verbatim>\<open>get\<close>, or is inside \<^verbatim>\<open>perform_task\<close>. The Worker is idle when no consumer is
  busy and the current queue, if any, holds no item.
\<close>

fun busy :: "pc \<Rightarrow> bool" where
  "busy ConsumerStart = True"
| "busy (Perform q payload) = True"
| "busy _ = False"

definition idle :: "'u sys \<Rightarrow> bool" where
  "idle s =
     (list_all (\<lambda>gl. \<not> busy (pc gl)) (greenlets s) \<and>
      (case task_queue (worker_state s) of None \<Rightarrow> True | Some q \<Rightarrow> items (queues s ! q) = []))"

text \<open>A run in which every \<^verbatim>\<open>prep_task_queue\<close> finds the Worker idle.\<close>

fun admissible ::
  "(json \<Rightarrow> error + 'f) \<Rightarrow> ('f \<Rightarrow> json \<Rightarrow> json \<Rightarrow> error + 'u) \<Rightarrow> 'u sys \<Rightarrow> action list \<Rightarrow> bool" where
  "admissible ic iu s [] = True"
| "admissible ic iu s (a # acts) =
     ((a = PrepTaskQueue \<longrightarrow> idle s) \<and> admissible ic iu (step ic iu s a) acts)"

text \<open>
  Consumer \<open>g\<close> drains the current queue: its next \<^verbatim>\<open>get\<close> or \<^verbatim>\<open>task_done\<close> will be
  on the queue the field holds, or it is blocked in \<^verbatim>\<open>get\<close> on that very queue.
\<close>

definition attached :: "'u sys \<Rightarrow> nat \<Rightarrow> bool" where
  "attached s g =
     (g < length (greenlets s) \<and>
      (case pc (greenlets s ! g) of
         ConsumerStart \<Rightarrow> True
       | Perform q payload \<Rightarrow> True
       | BlockedGet q \<Rightarrow> task_queue (worker_state s) = Some q
       | _ \<Rightarrow> False))"

definition consumers_on_current :: "'u sys \<Rightarrow> nat list" where
  "consumers_on_current s = filter (attached s) [0 ..< length (greenlets s)]"

section \<open>What holds of the queues along a run\<close>

text \<open>
  Some perform_task call on a payload of queue \<open>q\<close> has not returned yet.
\<close>

definition performing :: "'u sys \<Rightarrow> nat \<Rightarrow> bool" where
  "performing s q =
     (\<exists>g < length (greenlets s). \<exists>payload. pc (greenlets s ! g) = Perform q payload)"

text \<open>
  The addresses held by the Worker and by the greenlets are addresses of queues that
  exist.
\<close>

definition wf :: "'u sys \<Rightarrow> bool" where
  "wf s =
     ((\<forall>q. task_queue (worker_state s) = Some q \<longrightarrow> q < length (queues s)) \<and>
      (\<forall>g < length (greenlets s). \<forall>q.
         (pc (greenlets s ! g) = JoinWait q \<or> pc (greenlets s ! g) = BlockedGet q \<or>
          (\<exists>payload. pc (greenlets s ! g) = Perform q payload)) \<longrightarrow> q < length (queues s)))"

text \<open>
  Of every queue: what was put is what was taken, in the same order, followed by what is
  still in the queue.
\<close>

definition fifo :: "'u sys \<Rightarrow> bool" where
  "fifo s = (\<forall>q < length (queues s). enq (queues s ! q) = taken (queues s ! q) @ items (queues s ! q))"

text \<open>
  The state of a Worker whose queue was only ever replaced when idle: the count
  \<^verbatim>\<open>unfinished_tasks\<close> of a queue is the number of its items plus one when a
  \<^verbatim>\<open>perform_task\<close> call on one of its payloads is running; such a call runs on a
  payload of the current queue only; at most one consumer drains the current queue;
  the queues that were replaced are empty; and the current queue has a consumer unless
  some consumer has ended by an exception.
\<close>

definition coherent :: "'u sys \<Rightarrow> bool" where
  "coherent s =
     ((\<forall>q < length (queues s).
         unfinished (queues s ! q) =
           length (items (queues s ! q)) + (if performing s q then 1 else 0)) \<and>
      (\<forall>g < length (greenlets s). \<forall>q payload.
         pc (greenlets s ! g) = Perform q payload \<longrightarrow> task_queue (worker_state s) = Some q) \<and>
      (\<forall>g h. attached s g \<and> attached s h \<longrightarrow> g = h) \<and>
      (\<forall>q < length (queues s).
         task_queue (worker_state s) \<noteq> Some q \<longrightarrow> items (queues s ! q) = []) \<and>
      (task_queue (worker_state s) \<noteq> None \<longrightarrow>
         (\<exists>g. attached s g) \<or>
         (\<exists>g < length (greenlets s). \<exists>e. pc (greenlets s ! g) = Crashed e)))"

definition sound :: "'u sys \<Rightarrow> bool" where
  "sound s = (coherent s \<and> wf s \<and> fifo s)"

text \<open>
  The places of a greenlet that serves a request; a step of such a greenlet moves it
  between these places and leaves the queues alone.
\<close>

fun quiet :: "pc \<Rightarrow> bool" where
  "quiet (Handler r payload) = True"
| "quiet (WaitEvent ev) = True"
| "quiet (JoinWait q) = True"
| "quiet (JoinWoken q) = True"
| "quiet (Finished err) = True"
| "quiet _ = False"

definition quiet_move :: "nat \<Rightarrow> 'u sys \<Rightarrow> 'u sys \<Rightarrow> bool" where
  "quiet_move g s s' =
     (\<exists>w c os. s' = goto g c os (s\<lparr> worker_state := w \<rparr>) \<and>
        task_queue w = task_queue (worker_state s) \<and> quiet c \<and>
        (\<forall>q. c = JoinWait q \<longrightarrow> task_queue (worker_state s) = Some q))"

text \<open>
  A step of a consumer: it moves to \<open>c\<close>, the queues become \<open>Q\<close>, and only the current
  queue has changed.
\<close>

definition cmove :: "'u sys \<Rightarrow> pc \<Rightarrow> jqueue list \<Rightarrow> bool" where
  "cmove s c Q =
     (length Q = length (queues s) \<and>
      (\<forall>q < length Q. task_queue (worker_state s) \<noteq> Some q \<longrightarrow> Q ! q = queues s ! q) \<and>
      (case task_queue (worker_state s) of
         None \<Rightarrow> (\<exists>e. c = Crashed e)
       | Some q \<Rightarrow>
           ((\<exists>e. c = Crashed e) \<or> c = BlockedGet q \<or> (\<exists>payload. c = Perform q payload)) \<and>
           unfinished (Q ! q) =
             length (items (Q ! q)) + (if \<exists>payload. c = Perform q payload then 1 else 0) \<and>
           enq (Q ! q) = taken (Q ! q) @ items (Q ! q)))"

text \<open>
  What a step of another greenlet does to greenlet \<open>h\<close>. It leaves \<open>h\<close> as it is,
  and when \<open>h\<close> is blocked in \<^verbatim>\<open>join\<close> on a queue of which something is unfinished,
  something of that queue is still unfinished. Or, \<open>h\<close> being blocked in \<^verbatim>\<open>join\<close> on
  the current queue, it schedules \<open>h\<close>, and then nothing of that queue is unfinished.
\<close>

definition woke :: "'u sys \<Rightarrow> 'u sys \<Rightarrow> nat \<Rightarrow> bool" where
  "woke s s' h =
     (greenlets s' ! h = greenlets s ! h \<and>
      (\<forall>q < length (queues s).
         pc (greenlets s ! h) = JoinWait q \<and> 0 < unfinished (queues s ! q) \<longrightarrow>
           0 < unfinished (queues s' ! q)) \<or>
      (\<exists>q. task_queue (worker_state s) = Some q \<and> task_queue (worker_state s') = Some q \<and>
           pc (greenlets s ! h) = JoinWait q \<and>
           (q < length (queues s) \<longrightarrow> unfinished (queues s' ! q) = 0) \<and>
           greenlets s' ! h = (greenlets s ! h)\<lparr> pc := JoinWoken q \<rparr>))"

text \<open>
  A greenlet blocked in \<^verbatim>\<open>join\<close> waits for something: the count of its queue is
  positive.
\<close>

definition pending :: "'u sys \<Rightarrow> bool" where
  "pending s =
     (\<forall>g < length (greenlets s). \<forall>q.
        pc (greenlets s ! g) = JoinWait q \<longrightarrow> 0 < unfinished (queues s ! q))"

text \<open>
  Greenlet \<open>g\<close> called \<^verbatim>\<open>wait\<close> on event \<open>ev\<close> when its response was \<open>rs\<close>: either
  it is still there, or the event is set and it has answered \<^verbatim>\<open>Bokay\<close>.
\<close>

definition waiting :: "nat \<Rightarrow> nat \<Rightarrow> out list \<Rightarrow> 'u sys \<Rightarrow> bool" where
  "waiting g ev rs s =
     (g < length (greenlets s) \<and> ev < length (events s) \<and>
      (pc (greenlets s ! g) = WaitEvent ev \<and> resp (greenlets s ! g) = rs \<or>
       events s ! ev \<and> pc (greenlets s ! g) = Finished None \<and>
       resp (greenlets s ! g) = rs @ ok_bokay))"

text \<open>The last line of the response of \<^verbatim>\<open>queue_join\<close>.\<close>

definition done_line :: out where
  "done_line = BodyPut (''done'' @ CRLF)"

text \<open>
  Queue \<open>q\<close> is drained: nothing of it is unfinished, it holds no payload, and no
  \<^verbatim>\<open>perform_task\<close> call on one of its payloads is running.
\<close>

definition drained :: "'u sys \<Rightarrow> nat \<Rightarrow> bool" where
  "drained s q =
     (q < length (queues s) \<and> unfinished (queues s ! q) = 0 \<and> items (queues s ! q) = [] \<and>
      \<not> performing s q)"

text \<open>
  Greenlet \<open>j\<close> is blocked in \<^verbatim>\<open>join\<close> on queue \<open>q\<close> with response \<open>rs\<close>, something of
  \<open>q\<close> is unfinished, and as long as \<open>q\<close> is the current queue no consumer is alive.
\<close>

definition stuck :: "nat \<Rightarrow> nat \<Rightarrow> out list \<Rightarrow> 'u sys \<Rightarrow> bool" where
  "stuck j q rs s =
     (j < length (greenlets s) \<and> pc (greenlets s ! j) = JoinWait q \<and>
      resp (greenlets s ! j) = rs \<and>
      q < length (queues s) \<and> 0 < unfinished (queues s ! q) \<and>
      (\<exists>q'. task_queue (worker_state s) = Some q' \<and> q' < length (queues s)) \<and>
      (task_queue (worker_state s) = Some q \<longrightarrow>
         (\<forall>h < length (greenlets s).
            quiet (pc (greenlets s ! h)) \<or> (\<exists>e. pc (greenlets s ! h) = Crashed e))))"

section \<open>Concrete inputs\<close>

text \<open>
  A factory that resolves no identifier, a factory that resolves every identifier to
  a strategy that records its name and prefix, a configuration payload, and the
  credentials of a request.
\<close>

definition unknown_factory :: "json \<Rightarrow> error + unit" where
  "unknown_factory uow_name = Inl (Failure ''unknown strategy'')"

definition echo_factory :: "json \<Rightarrow> error + unit" where
  "echo_factory uow_name = Inr ()"

definition echo_uow :: "unit \<Rightarrow> json \<Rightarrow> json \<Rightarrow> error + json \<times> json" where
  "echo_uow ff uow_name pfx = Inr (uow_name, pfx)"

definition config_payload :: json where
  "config_payload =
     JDict [(''prefix'', JStr ''p''), (''shard_id'', JStr ''shard/0''), (''uow_name'', JStr ''echo'')]"

definition credentials :: "json \<Rightarrow> json \<Rightarrow> json" where
  "credentials p sid = JDict [(''prefix'', p), (''shard_id'', sid)]"

definition three_workers :: "string list" where
  "three_workers = [''host-a:9311'', ''host-b:9311'', ''host-c:9311'']"

definition ten_workers :: "string list" where
  "ten_workers = map (\<lambda>i. ''host:93'' @ gen_shard_id i 10) [0 ..< 10]"

definition fw0 :: "(unit, string) framework" where
  "fw0 = \<lparr> fw_prefix = ''/tmp/exelixi/run'', fw_uow_name = ''echo'', fw_uow = (),
           shard_assoc = None, fw_ring = None \<rparr>"

definition two_shards :: "(unit, string) framework" where
  "two_shards = fw0\<lparr> shard_assoc :=
      Some [(''shard/0'', ''host-a:9311'', None), (''shard/1'', ''host-b:9311'', None)] \<rparr>"

definition always_bokay :: "nat post_distrib_rest" where
  "always_bokay n c = (Inr [''Bokay''], Suc n)"

text \<open>
  Runs of a configured Worker: a \<^verbatim>\<open>queue_wait\<close> request during a production phase,
  and one when no phase is active;
  a \<^verbatim>\<open>queue_join\<close> request while one payload is processed, the same run with a
  second payload put after the first is done, and a \<^verbatim>\<open>queue_join\<close> request on an
  empty queue during a production phase; two calls of
  \<^verbatim>\<open>prep_task_queue\<close> in a row; and two phases, the queue replaced in between when
  the Worker is idle.
\<close>

definition configured_worker :: "(json \<times> json) worker" where
  "configured_worker =
     \<lparr> is_config = True, server_stopped = False, prefix = JStr ''p'',
       shard_id = JStr ''shard/0'', ring = JNull, task_event = None, task_queue = None,
       uow = Some (JStr ''echo'', JStr ''p'') \<rparr>"

definition waiting_run :: "action list" where
  "waiting_run =
     [Request ShardConfig config_payload, Run 0, EventBegin,
      Request QueueWait (credentials (JStr ''p'') (JStr ''shard/0''))]"

definition waiting_sys :: "(json \<times> json) sys" where
  "waiting_sys = exec echo_factory echo_uow init_sys waiting_run"

definition no_phase_sys :: "(json \<times> json) sys" where
  "no_phase_sys =
     exec echo_factory echo_uow init_sys
       [Request ShardConfig config_payload, Run 0,
        Request QueueWait (credentials (JStr ''p'') (JStr ''shard/0''))]"

definition draining_run :: "action list" where
  "draining_run =
     [Request ShardConfig config_payload, Run 0, PrepTaskQueue, Run 1, PutTaskQueue (JInt 1),
      Request QueueJoin (credentials (JStr ''p'') (JStr ''shard/0'')), Run 2, Run 1,
      TaskReturns 1]"

definition late_put_run :: "action list" where
  "late_put_run = draining_run @ [PutTaskQueue (JInt 2)]"

definition phase_join_run :: "action list" where
  "phase_join_run =
     [Request ShardConfig config_payload, Run 0, PrepTaskQueue, Run 1, EventBegin,
      Request QueueJoin (credentials (JStr ''p'') (JStr ''shard/0''))]"

definition double_prep_run :: "action list" where
  "double_prep_run =
     [Request ShardConfig config_payload, Run 0, PrepTaskQueue, PrepTaskQueue, Run 1, Run 2]"

definition two_phase_run :: "action list" where
  "two_phase_run =
     [Request ShardConfig config_payload, Run 0, PrepTaskQueue, Run 1,
      PutTaskQueue (JInt 1), PutTaskQueue (JInt 2), Run 1, TaskReturns 1, TaskReturns 1,
      PrepTaskQueue, Run 2, PutTaskQueue (JInt 3), Run 2]"

lemmas admissible_defs = idle_def list_all_iff

text \<open>
  A run in which two payloads are put and \<^verbatim>\<open>perform_task\<close> raises on the first, while a
  \<^verbatim>\<open>queue_join\<close> request waits.
\<close>

definition failing_run :: "action list" where
  "failing_run =
     [Request ShardConfig config_payload, Run 0, PrepTaskQueue,
      PutTaskQueue (JInt 1), PutTaskQueue (JInt 2), Run 1,
      Request QueueJoin (credentials (JStr ''p'') (JStr ''shard/0'')), Run 2,
      TaskRaises 1 (Failure ''bad payload'')]"

lemmas run_defs =
  exec_def init_sys_def Worker_init_def run_def goto_def shard_config_def shard_stop_def
  ring_init_def auth_request_def creds_match_def log_rejected_def queue_wait_def queue_join_def
  consumer_get_def consumer_take_def consumer_return_def consumer_raise_def finally_task_done_def
  task_done_def put_nowait_def JoinableQueue_def wake_def
  unknown_factory_def echo_factory_def echo_uow_def config_payload_def credentials_def

section \<open>Configuration\<close>

lemma shard_config_configured:
  "is_config w \<Longrightarrow> shard_config ic iu w B = (w, forbidden_configured, None)"
  by (simp add: shard_config_def)

lemma shard_config_sets_flag:
  "shard_config ic iu w A = (w', os, err) \<Longrightarrow> is_config w'"
  by (auto simp: shard_config_def Let_def split: sum.splits if_splits)

lemma executor_shard_config_configured:
  "ex_is_config x \<Longrightarrow> executor_shard_config x B = (x, denied_configured, None)"
  by (simp add: executor_shard_config_def)

lemma executor_shard_config_sets_flag:
  "executor_shard_config x A = (x', os, err) \<Longrightarrow> ex_is_config x'"
  by (auto simp: executor_shard_config_def Let_def split: sum.splits if_splits)

text \<open>
  Claim C3. A Worker whose \<open>is_config\<close> flag is set answers every further
  \<^verbatim>\<open>shard_config\<close> with the 403 rejection and stays exactly as it was, whatever the
  payload; so after a first configuration attempt A on an unconfigured Worker, a
  second payload B changes neither the stored prefix, nor the shard id, nor the
  UnitOfWork. The \<^verbatim>\<open>Executor\<close> of executor.py does the same with its 404 rejection.
\<close>

theorem shard_config_second_rejected:
  "(is_config w \<longrightarrow> shard_config ic iu w B = (w, forbidden_configured, None)) \<and>
   (\<not> is_config w0 \<and> shard_config ic iu w0 A = (w1, outA, errA) \<longrightarrow>
      shard_config ic iu w1 B = (w1, forbidden_configured, None)) \<and>
   (ex_is_config x \<longrightarrow> executor_shard_config x B = (x, denied_configured, None)) \<and>
   (\<not> ex_is_config x0 \<and> executor_shard_config x0 A = (x1, outX, errX) \<longrightarrow>
      executor_shard_config x1 B = (x1, denied_configured, None))"
  using shard_config_configured [of w ic iu B] shard_config_configured [of w1 ic iu B]
    shard_config_sets_flag [of ic iu w0 A w1 outA errA]
    executor_shard_config_configured [of x B] executor_shard_config_configured [of x1 B]
    executor_shard_config_sets_flag [of x0 A x1 outX errX]
  by blast

theorem shard_config_second_rejected_witness:
  "\<exists>w1 x1.
     shard_config (\<lambda>n. Inr ()) (\<lambda>f n p. Inr (n, p)) Worker_init
        (JDict [(''prefix'', JStr ''p''), (''shard_id'', JStr ''shard/0''),
                (''uow_name'', JStr ''echo'')]) = (w1, ok_bokay, None) \<and>
     is_config w1 \<and> prefix w1 = JStr ''p'' \<and> shard_id w1 = JStr ''shard/0'' \<and>
     uow w1 = Some (JStr ''echo'', JStr ''p'') \<and>
     shard_config (\<lambda>n. Inr ()) (\<lambda>f n p. Inr (n, p)) w1
        (JDict [(''prefix'', JStr ''q''), (''shard_id'', JStr ''shard/9''),
                (''uow_name'', JStr ''other'')]) = (w1, forbidden_configured, None) \<and>
     executor_shard_config
        \<lparr>ex_is_config = False, ex_prefix = JNull, ex_shard_id = JNull,
         ex_hash_ring = JNull, ex_ff_name = JNull, ex_pop = (None :: unit option)\<rparr>
        (JDict [(''prefix'', JStr ''p''), (''shard_id'', JStr ''shard/0'')]) = (x1, ok_bokay, None) \<and>
     ex_is_config x1 \<and> ex_prefix x1 = JStr ''p'' \<and> ex_shard_id x1 = JStr ''shard/0'' \<and>
     executor_shard_config x1
        (JDict [(''prefix'', JStr ''q''), (''shard_id'', JStr ''shard/9'')]) =
       (x1, denied_configured, None)"
proof -
  define A where "A = JDict [(''prefix'', JStr ''p''), (''shard_id'', JStr ''shard/0''),
                (''uow_name'', JStr ''echo'')]"
  define B where "B = JDict [(''prefix'', JStr ''q''), (''shard_id'', JStr ''shard/9''),
                (''uow_name'', JStr ''other'')]"
  define AX where "AX = JDict [(''prefix'', JStr ''p''), (''shard_id'', JStr ''shard/0'')]"
  define BX where "BX = JDict [(''prefix'', JStr ''q''), (''shard_id'', JStr ''shard/9'')]"
  define w1 :: "(json \<times> json) worker" where
    "w1 = \<lparr> is_config = True, server_stopped = False, prefix = JStr ''p'',
            shard_id = JStr ''shard/0'', ring = JNull, task_event = None, task_queue = None,
            uow = Some (JStr ''echo'', JStr ''p'') \<rparr>"
  define x0 where "x0 = \<lparr>ex_is_config = False, ex_prefix = JNull, ex_shard_id = JNull,
         ex_hash_ring = JNull, ex_ff_name = JNull, ex_pop = (None :: unit option)\<rparr>"
  define x1 where "x1 = \<lparr>ex_is_config = True, ex_prefix = JStr ''p'',
         ex_shard_id = JStr ''shard/0'', ex_hash_ring = JNull, ex_ff_name = JNull,
         ex_pop = (None :: unit option)\<rparr>"
  have first: "shard_config (\<lambda>n. Inr ()) (\<lambda>f n p. Inr (n, p)) Worker_init A = (w1, ok_bokay, None)"
    by (simp add: shard_config_def Worker_init_def A_def w1_def)
  have firstx: "executor_shard_config x0 AX = (x1, ok_bokay, None)"
    by (simp add: executor_shard_config_def x0_def x1_def AX_def)
  have fresh: "\<not> is_config (Worker_init :: (json \<times> json) worker)" "\<not> ex_is_config x0"
    by (simp_all add: Worker_init_def x0_def)
  from shard_config_second_rejected
         [of w1 "\<lambda>n. Inr ()" "\<lambda>f n p. Inr (n, p)" B Worker_init A w1 ok_bokay None x1 x0 x1 ok_bokay None]
       first firstx fresh
  have "shard_config (\<lambda>n. Inr ()) (\<lambda>f n p. Inr (n, p)) w1 B = (w1, forbidden_configured, None)"
    and "executor_shard_config x1 BX = (x1, denied_configured, None)"
    by (simp_all add: w1_def x1_def executor_shard_config_def AX_def BX_def)
  with first firstx show ?thesis
    unfolding A_def B_def AX_def BX_def x0_def
    by (intro exI[of _ w1] exI[of _ x1]) (simp add: w1_def x1_def)
qed

text \<open>
  Claim C1, as stated, fails: \<^verbatim>\<open>shard_config\<close> sets \<open>is_config\<close>, the prefix and the
  shard id before it calls the factory, and nothing undoes the assignments when the
  factory raises. On a fresh Worker and a payload whose strategy no factory resolves,
  the attempt fails and the flag, the prefix and the shard id have changed.
\<close>

theorem shard_config_unknown_strategy_counterexample:
  "snd (snd (shard_config unknown_factory echo_uow Worker_init config_payload)) =
     Some (Failure ''unknown strategy'') \<and>
   \<not> (is_config (fst (shard_config unknown_factory echo_uow Worker_init config_payload)) =
        is_config (Worker_init :: (json \<times> json) worker) \<and>
      prefix (fst (shard_config unknown_factory echo_uow Worker_init config_payload)) =
        prefix (Worker_init :: (json \<times> json) worker) \<and>
      shard_id (fst (shard_config unknown_factory echo_uow Worker_init config_payload)) =
        shard_id (Worker_init :: (json \<times> json) worker) \<and>
      uow (fst (shard_config unknown_factory echo_uow Worker_init config_payload)) =
        uow (Worker_init :: (json \<times> json) worker))"
  by (simp add: shard_config_def unknown_factory_def config_payload_def Worker_init_def)

text \<open>
  Claim C1, amended. For an unconfigured Worker and a payload that carries a prefix, a
  shard id and a strategy identifier the factory cannot resolve, the attempt fails with
  the factory's exception, nothing is written to the caller, and the UnitOfWork (with
  every field other than the three named next) is as before; \<open>is_config\<close> is set and the
  prefix and the shard id are those of the payload.
\<close>

theorem shard_config_unknown_strategy:
  assumes "\<not> is_config w"
    and "subscript payload ''prefix'' = Inr p"
    and "subscript payload ''shard_id'' = Inr sid"
    and "subscript payload ''uow_name'' = Inr nm"
    and "ic nm = Inl e"
  shows "shard_config ic iu w payload =
           (w\<lparr> is_config := True, prefix := p, shard_id := sid \<rparr>, [], Some e)"
  using assms by (simp add: shard_config_def)

theorem shard_config_unknown_strategy_witness:
  "shard_config unknown_factory echo_uow Worker_init config_payload =
     (Worker_init\<lparr> is_config := True, prefix := JStr ''p'', shard_id := JStr ''shard/0'' \<rparr>,
      [], Some (Failure ''unknown strategy''))"
  using shard_config_unknown_strategy
          [of Worker_init config_payload "JStr ''p''" "JStr ''shard/0''" "JStr ''echo''"
              unknown_factory "Failure ''unknown strategy''" echo_uow]
  by (simp add: Worker_init_def config_payload_def unknown_factory_def)

section \<open>The test of the credential\<close>

text \<open>
  Claim C4. A greenlet started for \<^verbatim>\<open>ring_init\<close>, \<^verbatim>\<open>queue_wait\<close>, \<^verbatim>\<open>queue_join\<close> or
  \<^verbatim>\<open>shard_stop\<close> whose payload does not pass the credential test ends at once, and the
  system afterwards is the system before, but for that greenlet's own end and response:
  the Worker's fields (the server among them), every queue, every event and every
  other greenlet are the same. When the test gives \<^verbatim>\<open>False\<close> the three handlers that
  call \<^verbatim>\<open>auth_request\<close> write the 403 response; \<^verbatim>\<open>shard_stop\<close> writes nothing.
\<close>

theorem mismatched_credentials_rejected:
  assumes "g < length (greenlets s)"
    and "pc (greenlets s ! g) = Handler r payload"
    and "r \<in> {RingInit, QueueWait, QueueJoin, ShardStop}"
    and "creds_match (worker_state s) payload \<noteq> Inr True"
  shows "\<exists>err.
     run ic iu g s =
       s\<lparr> greenlets := (greenlets s)
            [g := \<lparr> pc = Finished err,
                    resp = resp (greenlets s ! g) @
                      (if creds_match (worker_state s) payload = Inr False \<and> r \<noteq> ShardStop
                       then forbidden_credentials else []) \<rparr>] \<rparr>"
proof (cases "creds_match (worker_state s) payload")
  case (Inl e)
  with assms show ?thesis
    by (auto simp: run_def goto_def auth_request_def ring_init_def shard_stop_def
        queue_wait_def queue_join_def)
next
  case (Inr b)
  with assms have "creds_match (worker_state s) payload = Inr False" by simp
  with assms show ?thesis
    by (auto simp: run_def goto_def auth_request_def ring_init_def shard_stop_def
        queue_wait_def queue_join_def split: option.splits)
qed

theorem mismatched_credentials_rejected_witness:
  "run echo_factory echo_uow 1
     (exec echo_factory echo_uow init_sys
        [Request ShardConfig config_payload, Run 0,
         Request QueueJoin (credentials (JStr ''p'') (JStr ''shard/1''))]) =
   (exec echo_factory echo_uow init_sys
        [Request ShardConfig config_payload, Run 0,
         Request QueueJoin (credentials (JStr ''p'') (JStr ''shard/1''))])
     \<lparr> greenlets :=
         [\<lparr> pc = Finished None, resp = ok_bokay \<rparr>,
          \<lparr> pc = Finished None, resp = forbidden_credentials \<rparr>] \<rparr>"
  using mismatched_credentials_rejected
          [of 1 "exec echo_factory echo_uow init_sys
                   [Request ShardConfig config_payload, Run 0,
                    Request QueueJoin (credentials (JStr ''p'') (JStr ''shard/1''))]"
              QueueJoin "credentials (JStr ''p'') (JStr ''shard/1'')" echo_factory echo_uow]
  by (simp add: run_defs)

text \<open>
  Claim C10. On a Worker whose stored prefix and shard id are both \<^verbatim>\<open>None\<close>, a payload
  whose \<^verbatim>\<open>prefix\<close> and \<^verbatim>\<open>shard_id\<close> are both null passes \<^verbatim>\<open>auth_request\<close>, which
  returns \<^verbatim>\<open>True\<close> and writes nothing, and each gated operation takes its accepting
  branch: \<^verbatim>\<open>shard_stop\<close> stops the server, \<^verbatim>\<open>ring_init\<close> stores the ring it is given
  and answers \<^verbatim>\<open>Bokay\<close>, \<^verbatim>\<open>queue_wait\<close> answers \<^verbatim>\<open>Bokay\<close> (no event is pending),
  \<^verbatim>\<open>queue_join\<close> starts its 200 response and goes on to \<^verbatim>\<open>join\<close>.
\<close>

theorem null_credentials_accepted:
  assumes "prefix (worker_state s) = JNull" and "shard_id (worker_state s) = JNull"
    and "subscript payload ''prefix'' = Inr JNull"
    and "subscript payload ''shard_id'' = Inr JNull"
    and "g < length (greenlets s)"
    and "pc (greenlets s ! g) = Handler r payload"
  shows "auth_request (worker_state s) payload = ([], Inr True) \<and>
    (r = ShardStop \<longrightarrow>
       run ic iu g s =
         goto g (Finished None) [] (s\<lparr> worker_state := (worker_state s)\<lparr> server_stopped := True \<rparr> \<rparr>)) \<and>
    (r = RingInit \<longrightarrow> (\<forall>rg. subscript payload ''ring'' = Inr rg \<longrightarrow>
       run ic iu g s =
         goto g (Finished None) ok_bokay (s\<lparr> worker_state := (worker_state s)\<lparr> ring := rg \<rparr> \<rparr>))) \<and>
    (r = QueueWait \<longrightarrow> task_event (worker_state s) = None \<longrightarrow>
       run ic iu g s = goto g (Finished None) ok_bokay s) \<and>
    (r = QueueJoin \<longrightarrow> (\<exists>c rest. run ic iu g s = goto g c (join_begin @ rest) s))"
proof -
  have m: "creds_match (worker_state s) payload = Inr True"
    using assms by (simp add: creds_match_def)
  then have a: "auth_request (worker_state s) payload = ([], Inr True)"
    by (simp add: auth_request_def)
  have j: "\<exists>c rest. queue_join g payload s = goto g c (join_begin @ rest) s"
  proof (cases "task_queue (worker_state s)")
    case None
    then have "queue_join g payload s = goto g (Finished (Some AttributeError)) (join_begin @ []) s"
      by (simp add: queue_join_def a)
    then show ?thesis by blast
  next
    case (Some q)
    show ?thesis
    proof (cases "unfinished (queues s ! q) = 0")
      case True
      with Some have "queue_join g payload s = goto g (Finished None) (join_begin @ join_done) s"
        by (simp add: queue_join_def a)
      then show ?thesis by blast
    next
      case False
      with Some have "queue_join g payload s = goto g (JoinWait q) (join_begin @ []) s"
        by (simp add: queue_join_def a)
      then show ?thesis by blast
    qed
  qed
  show ?thesis
    using assms a m j by (auto simp: run_def shard_stop_def ring_init_def queue_wait_def)
qed

theorem null_credentials_accepted_witness:
  "auth_request (Worker_init :: (json \<times> json) worker) (credentials JNull JNull) = ([], Inr True) \<and>
   resp (greenlets (run echo_factory echo_uow 0
      (exec echo_factory echo_uow init_sys [Request QueueWait (credentials JNull JNull)])) ! 0) =
     ok_bokay \<and>
   server_stopped (worker_state (run echo_factory echo_uow 0
      (exec echo_factory echo_uow init_sys [Request ShardStop (credentials JNull JNull)])))"
  using null_credentials_accepted
          [of "exec echo_factory echo_uow init_sys [Request QueueWait (credentials JNull JNull)]"
              "credentials JNull JNull" 0 QueueWait echo_factory echo_uow]
        null_credentials_accepted
          [of "exec echo_factory echo_uow init_sys [Request ShardStop (credentials JNull JNull)]"
              "credentials JNull JNull" 0 ShardStop echo_factory echo_uow]
  by (simp add: exec_def init_sys_def Worker_init_def credentials_def goto_def)

section \<open>Shard identities\<close>

lemma digit_val_digit_char: "d < 10 \<Longrightarrow> digit_val (digit_char d) = d"
proof -
  assume "d < 10"
  then consider "d = 0" | "d = 1" | "d = 2" | "d = 3" | "d = 4" | "d = 5" | "d = 6" | "d = 7"
    | "d = 8" | "d = 9" by atomize_elim arith
  then show ?thesis
    by cases (simp_all add: digit_val_def digit_char_def)
qed

lemma dec_val_snoc: "dec_val (s @ [c]) = 10 * dec_val s + digit_val c"
  by (simp add: dec_val_def)

lemma dec_val_str_nat: "dec_val (str_nat n) = n"
proof (induction n rule: str_nat.induct)
  case (1 n)
  show ?case
  proof (cases "n < 10")
    case True
    then show ?thesis
      by (subst str_nat.simps) (simp add: dec_val_def digit_val_digit_char)
  next
    case False
    with 1 show ?thesis
      by (subst str_nat.simps) (simp add: dec_val_snoc digit_val_digit_char)
  qed
qed

lemma dec_val_zeros: "dec_val (replicate k CHR ''0'' @ s) = dec_val s"
proof -
  have "foldl (\<lambda>a c. 10 * a + digit_val c) 0 (replicate k CHR ''0'') = 0"
    by (induction k) (simp_all add: digit_val_def)
  then show ?thesis by (simp add: dec_val_def)
qed

lemma dec_val_gen_shard_id: "dec_val (drop 6 (gen_shard_id i n)) = i"
  by (simp add: gen_shard_id_def Let_def dec_val_zeros dec_val_str_nat)

lemma gen_shard_id_inj: "gen_shard_id i n = gen_shard_id j n \<Longrightarrow> i = j"
  by (metis dec_val_gen_shard_id)

lemma length_str_nat_pos: "0 < length (str_nat n)"
  by (subst str_nat.simps) simp

lemma length_str_nat_mono: "i \<le> n \<Longrightarrow> length (str_nat i) \<le> length (str_nat n)"
proof (induction i arbitrary: n rule: str_nat.induct)
  case (1 i)
  show ?case
  proof (cases "i < 10")
    case True
    then have "length (str_nat i) = 1" by (subst str_nat.simps) simp
    with length_str_nat_pos [of n] show ?thesis by linarith
  next
    case False
    with 1 have "length (str_nat (i div 10)) \<le> length (str_nat (n div 10))"
      by (simp add: div_le_mono)
    moreover from False have "length (str_nat i) = Suc (length (str_nat (i div 10)))"
      by (subst str_nat.simps) simp
    moreover from False "1.prems" have "length (str_nat n) = Suc (length (str_nat (n div 10)))"
      by (subst str_nat.simps) simp
    ultimately show ?thesis by simp
  qed
qed

lemma update_fresh: "k \<notin> fst ` set al \<Longrightarrow> AList.update k v al = al @ [(k, v)]"
  by (induction al) auto

lemma set_worker_loop_run:
  assumes "\<forall>i \<in> set idx. i < length worker_list"
    and "exe_info = None \<or> exe_info = Some [] \<or>
         (\<exists>infos. exe_info = Some infos \<and> (\<forall>i \<in> set idx. i < length infos))"
    and "distinct idx"
    and "\<forall>i \<in> set idx. gen_shard_id i (length worker_list) \<notin> fst ` set assoc"
  shows "set_worker_loop worker_list exe_info idx assoc =
           (assoc @ map (\<lambda>i. (gen_shard_id i (length worker_list), worker_list ! i,
                               descriptor exe_info i)) idx, None)"
  using assms
proof (induction idx arbitrary: assoc)
  case Nil
  then show ?case by simp
next
  case (Cons i idx)
  let ?k = "gen_shard_id i (length worker_list)"
  let ?v = "(worker_list ! i, descriptor exe_info i)"
  have fresh: "?k \<notin> fst ` set assoc" using Cons.prems(4) by simp
  have later: "\<forall>j \<in> set idx. gen_shard_id j (length worker_list) \<notin> fst ` set (assoc @ [(?k, ?v)])"
    using Cons.prems(3,4) by (auto dest: gen_shard_id_inj)
  have ih: "set_worker_loop worker_list exe_info idx (assoc @ [(?k, ?v)]) =
              ((assoc @ [(?k, ?v)]) @ map (\<lambda>i. (gen_shard_id i (length worker_list), worker_list ! i,
                               descriptor exe_info i)) idx, None)"
    using Cons.prems later by (intro Cons.IH) auto
  have unfold: "set_worker_loop worker_list exe_info (i # idx) assoc =
                  set_worker_loop worker_list exe_info idx (assoc @ [(?k, ?v)])"
  proof (cases "exe_info = None \<or> exe_info = Some []")
    case True
    with Cons.prems(1) fresh show ?thesis
      by (auto simp: Let_def update_fresh descriptor_def)
  next
    case False
    with Cons.prems(2) obtain infos where
      infos: "exe_info = Some infos" "i < length infos" "infos \<noteq> []"
      by auto
    with Cons.prems(1) fresh show ?thesis
      by (simp add: Let_def update_fresh descriptor_def)
  qed
  with ih show ?case by simp
qed

text \<open>
  Claim C9. For a list of \<open>n\<close> addresses, with no descriptors or with at least \<open>n\<close> of
  them, \<^verbatim>\<open>set_worker_list\<close> ends without an exception and the registry holds, for each
  \<open>i < n\<close> in order, the identity \<^verbatim>\<open>_gen_shard_id(i, n)\<close> with the \<open>i\<close>-th address and
  its descriptor. The identity is \<^verbatim>\<open>shard/\<close>, then zeros, then the decimal digits of
  \<open>i\<close>, as many characters as \<open>n\<close> has digits; and different indices have different
  identities. The result is a function of the arguments.
\<close>

theorem set_worker_list_assigns:
  assumes "exe_info = None \<or> exe_info = Some [] \<or>
           (\<exists>infos. exe_info = Some infos \<and> length worker_list \<le> length infos)"
    and "n = length worker_list"
  shows "set_worker_list fw worker_list exe_info =
           (fw\<lparr> shard_assoc :=
                  Some (map (\<lambda>i. (gen_shard_id i n, worker_list ! i, descriptor exe_info i))
                            [0 ..< n]) \<rparr>, None) \<and>
         (\<forall>i < n. \<exists>z. gen_shard_id i n = ''shard/'' @ replicate z CHR ''0'' @ str_nat i \<and>
                       z + length (str_nat i) = length (str_nat n)) \<and>
         (\<forall>i < n. \<forall>j < n. gen_shard_id i n = gen_shard_id j n \<longrightarrow> i = j)"
proof -
  have "set_worker_loop worker_list exe_info [0 ..< n] [] =
          ([] @ map (\<lambda>i. (gen_shard_id i (length worker_list), worker_list ! i,
                           descriptor exe_info i)) [0 ..< n], None)"
    using assms by (intro set_worker_loop_run) auto
  then have a: "set_worker_list fw worker_list exe_info =
           (fw\<lparr> shard_assoc :=
                  Some (map (\<lambda>i. (gen_shard_id i n, worker_list ! i, descriptor exe_info i))
                            [0 ..< n]) \<rparr>, None)"
    using assms(2) by (simp add: set_worker_list_def)
  have b: "\<exists>z. gen_shard_id i n = ''shard/'' @ replicate z CHR ''0'' @ str_nat i \<and>
                       z + length (str_nat i) = length (str_nat n)" if "i < n" for i
  proof -
    from that have "length (str_nat i) \<le> length (str_nat n)"
      by (simp add: length_str_nat_mono)
    then show ?thesis
      by (intro exI[of _ "length (str_nat n) - length (str_nat i)"])
         (simp add: gen_shard_id_def Let_def)
  qed
  from a b show ?thesis by (auto dest: gen_shard_id_inj)
qed

theorem set_worker_list_assigns_witness:
  "set_worker_list fw0 three_workers None =
     (fw0\<lparr> shard_assoc := Some [(''shard/0'', ''host-a:9311'', None),
                                 (''shard/1'', ''host-b:9311'', None),
                                 (''shard/2'', ''host-c:9311'', None)] \<rparr>, None) \<and>
   map fst (the (shard_assoc (fst (set_worker_list fw0 ten_workers None)))) =
     [''shard/00'', ''shard/01'', ''shard/02'', ''shard/03'', ''shard/04'',
      ''shard/05'', ''shard/06'', ''shard/07'', ''shard/08'', ''shard/09'']"
proof -
  have l3: "length three_workers = 3" by (simp add: three_workers_def)
  have l10: "length ten_workers = 10" by (simp add: ten_workers_def)
  have m3: "map (\<lambda>i. (gen_shard_id i 3, three_workers ! i, descriptor (None :: string list option) i)) [0 ..< 3] =
      [(''shard/0'', ''host-a:9311'', None), (''shard/1'', ''host-b:9311'', None),
       (''shard/2'', ''host-c:9311'', None)]"
    by code_simp
  have m10: "map fst (map (\<lambda>i. (gen_shard_id i 10, ten_workers ! i, descriptor (None :: string list option) i)) [0 ..< 10]) =
     [''shard/00'', ''shard/01'', ''shard/02'', ''shard/03'', ''shard/04'',
      ''shard/05'', ''shard/06'', ''shard/07'', ''shard/08'', ''shard/09'']"
    by code_simp
  have h: "(None :: string list option) = None \<or> (None :: string list option) = Some [] \<or>
           (\<exists>infos. (None :: string list option) = Some infos \<and> length ws \<le> length infos)" for ws :: "string list"
    by simp
  have a: "set_worker_list fw0 three_workers None =
     (fw0\<lparr> shard_assoc := Some [(''shard/0'', ''host-a:9311'', None),
                                 (''shard/1'', ''host-b:9311'', None),
                                 (''shard/2'', ''host-c:9311'', None)] \<rparr>, None)"
    using set_worker_list_assigns [OF h l3 [symmetric], of fw0, THEN conjunct1]
    by (simp only: m3)
  have "set_worker_list fw0 ten_workers None =
     (fw0\<lparr> shard_assoc := Some (map (\<lambda>i. (gen_shard_id i 10, ten_workers ! i,
               descriptor (None :: string list option) i)) [0 ..< 10]) \<rparr>, None)"
    using set_worker_list_assigns [OF h l10 [symmetric], of fw0, THEN conjunct1] .
  then have "map fst (the (shard_assoc (fst (set_worker_list fw0 ten_workers None)))) =
     map fst (map (\<lambda>i. (gen_shard_id i 10, ten_workers ! i, descriptor (None :: string list option) i)) [0 ..< 10])"
    by simp
  with m10 a show ?thesis by (simp only: simp_thms)
qed

section \<open>The two-phase barrier of the coordinator\<close>

lemma send_ring_items_path:
  "send_ring_items post pfx path msg assoc n = (r, n', tr) \<Longrightarrow> \<forall>ev \<in> set tr. ev_path ev = path"
proof (induction assoc arbitrary: n r n' tr)
  case Nil
  then show ?case by simp
next
  case (Cons a assoc)
  obtain sid uri info where a: "a = (sid, uri, info)" by (cases a)
  from Cons.prems Cons.IH show ?case
    unfolding a
    by (auto split: prod.splits sum.splits list.splits)
qed

lemma send_ring_items_ok:
  "send_ring_items post pfx path msg assoc n = (Inr js, n', tr) \<Longrightarrow>
     requests tr = map (\<lambda>(sid, uri, info). (sid, path)) assoc \<and>
     acks tr = map (\<lambda>(sid, uri, info). (sid, path)) assoc"
proof (induction assoc arbitrary: n js n' tr)
  case Nil
  then show ?case by simp
next
  case (Cons a assoc)
  obtain sid uri info where a: "a = (sid, uri, info)" by (cases a)
  from Cons.prems Cons.IH show ?case
    unfolding a
    by (auto split: prod.splits sum.splits list.splits)
qed

text \<open>
  Claim C8. The events of \<^verbatim>\<open>phase_barrier\<close> are a first part in which every event is
  for \<^verbatim>\<open>queue/wait\<close> followed by a second part in which every event is for
  \<^verbatim>\<open>queue/join\<close>. When the second part is not empty, that is as soon as one
  \<^verbatim>\<open>queue/join\<close> request is sent, the first part holds a request to every shard of the
  registry and an acknowledgement from every shard; and when no call fails the second
  part does too.
\<close>

theorem phase_barrier_wait_before_join:
  assumes "shard_assoc fw = Some assoc"
    and "phase_barrier post fw n = (err, n', tr)"
  shows "\<exists>tw tj. tr = tw @ tj \<and>
           (\<forall>ev \<in> set tw. ev_path ev = ''queue/wait'') \<and>
           (\<forall>ev \<in> set tj. ev_path ev = ''queue/join'') \<and>
           (tj \<noteq> [] \<or> err = None \<longrightarrow>
              requests tw = map (\<lambda>(sid, uri, info). (sid, ''queue/wait'')) assoc \<and>
              acks tw = map (\<lambda>(sid, uri, info). (sid, ''queue/wait'')) assoc) \<and>
           (err = None \<longrightarrow>
              requests tj = map (\<lambda>(sid, uri, info). (sid, ''queue/join'')) assoc \<and>
              acks tj = map (\<lambda>(sid, uri, info). (sid, ''queue/join'')) assoc)"
proof -
  obtain r1 n1 tr1 where w: "send_ring_items post (fw_prefix fw) ''queue/wait'' (JDict []) assoc n = (r1, n1, tr1)"
    by (cases "send_ring_items post (fw_prefix fw) ''queue/wait'' (JDict []) assoc n") auto
  note p1 = send_ring_items_path [OF w]
  show ?thesis
  proof (cases r1)
    case (Inl e)
    with w assms have "tr = tr1 @ []" "err = Some e"
      by (simp_all add: phase_barrier_def send_ring_rest_def)
    with p1 show ?thesis by (intro exI[of _ tr1] exI[of _ "[]"]) simp
  next
    case (Inr js)
    obtain r2 n2 tr2 where j: "send_ring_items post (fw_prefix fw) ''queue/join'' (JDict []) assoc n1 = (r2, n2, tr2)"
      by (cases "send_ring_items post (fw_prefix fw) ''queue/join'' (JDict []) assoc n1") auto
    note p2 = send_ring_items_path [OF j]
    note ok1 = send_ring_items_ok [OF w [unfolded Inr]]
    from w j Inr assms have tr: "tr = tr1 @ tr2"
      by (auto simp: phase_barrier_def send_ring_rest_def split: sum.splits)
    have ok2: "requests tr2 = map (\<lambda>(sid, uri, info). (sid, ''queue/join'')) assoc \<and>
               acks tr2 = map (\<lambda>(sid, uri, info). (sid, ''queue/join'')) assoc" if "err = None"
    proof -
      from that w j Inr assms obtain js2 where "r2 = Inr js2"
        by (auto simp: phase_barrier_def send_ring_rest_def split: sum.splits)
      with j show ?thesis by (auto dest: send_ring_items_ok)
    qed
    from tr p1 p2 ok1 ok2 show ?thesis
      by (intro exI[of _ tr1] exI[of _ tr2]) simp
  qed
qed


theorem phase_barrier_wait_before_join_witness:
  "phase_barrier always_bokay two_shards 0 =
     (None, 4,
      [Sent ''shard/0'' ''queue/wait'', Received ''shard/0'' ''queue/wait'' [''Bokay''],
       Sent ''shard/1'' ''queue/wait'', Received ''shard/1'' ''queue/wait'' [''Bokay''],
       Sent ''shard/0'' ''queue/join'', Received ''shard/0'' ''queue/join'' [''Bokay''],
       Sent ''shard/1'' ''queue/join'', Received ''shard/1'' ''queue/join'' [''Bokay'']]) \<and>
   (\<exists>tw tj.
      [Sent ''shard/0'' ''queue/wait'', Received ''shard/0'' ''queue/wait'' [''Bokay''],
       Sent ''shard/1'' ''queue/wait'', Received ''shard/1'' ''queue/wait'' [''Bokay''],
       Sent ''shard/0'' ''queue/join'', Received ''shard/0'' ''queue/join'' [''Bokay''],
       Sent ''shard/1'' ''queue/join'', Received ''shard/1'' ''queue/join'' [''Bokay'']] = tw @ tj \<and>
      requests tw = [(''shard/0'', ''queue/wait''), (''shard/1'', ''queue/wait'')] \<and>
      acks tw = [(''shard/0'', ''queue/wait''), (''shard/1'', ''queue/wait'')] \<and>
      requests tj = [(''shard/0'', ''queue/join''), (''shard/1'', ''queue/join'')] \<and>
      acks tj = [(''shard/0'', ''queue/join''), (''shard/1'', ''queue/join'')])"
proof -
  let ?tr = "[Sent ''shard/0'' ''queue/wait'', Received ''shard/0'' ''queue/wait'' [''Bokay''],
       Sent ''shard/1'' ''queue/wait'', Received ''shard/1'' ''queue/wait'' [''Bokay''],
       Sent ''shard/0'' ''queue/join'', Received ''shard/0'' ''queue/join'' [''Bokay''],
       Sent ''shard/1'' ''queue/join'', Received ''shard/1'' ''queue/join'' [''Bokay'']]"
  have reg: "shard_assoc two_shards =
      Some [(''shard/0'', ''host-a:9311'', None), (''shard/1'', ''host-b:9311'', None)]"
    by (simp add: two_shards_def)
  have run: "phase_barrier always_bokay two_shards 0 = (None, 4, ?tr)"
    by (simp add: phase_barrier_def send_ring_rest_def two_shards_def fw0_def always_bokay_def)
  from phase_barrier_wait_before_join [OF reg run] obtain tw tj where
    "?tr = tw @ tj"
    "requests tw = [(''shard/0'', ''queue/wait''), (''shard/1'', ''queue/wait'')]"
    "acks tw = [(''shard/0'', ''queue/wait''), (''shard/1'', ''queue/wait'')]"
    "requests tj = [(''shard/0'', ''queue/join''), (''shard/1'', ''queue/join'')]"
    "acks tj = [(''shard/0'', ''queue/join''), (''shard/1'', ''queue/join'')]"
    by auto
  with run show ?thesis by blast
qed

section \<open>Steps of handlers and of consumers\<close>

lemma goto_simps [simp]:
  "worker_state (goto g c os s) = worker_state s"
  "queues (goto g c os s) = queues s"
  "events (goto g c os s) = events s"
  "length (greenlets (goto g c os s)) = length (greenlets s)"
  "h \<noteq> g \<Longrightarrow> greenlets (goto g c os s) ! h = greenlets s ! h"
  "g < length (greenlets s) \<Longrightarrow> pc (greenlets (goto g c os s) ! g) = c"
  "g < length (greenlets s) \<Longrightarrow> resp (greenlets (goto g c os s) ! g) = resp (greenlets s ! g) @ os"
  by (simp_all add: goto_def)

lemma shard_config_task_queue [simp]:
  "task_queue (fst (shard_config ic iu w payload)) = task_queue w"
  by (simp add: shard_config_def Let_def split: sum.splits)

lemma shard_stop_task_queue [simp]:
  "task_queue (fst (shard_stop w payload)) = task_queue w"
  by (simp add: shard_stop_def split: sum.splits bool.splits)

lemma ring_init_task_queue [simp]:
  "task_queue (fst (ring_init w payload)) = task_queue w"
  by (simp add: ring_init_def split: sum.splits bool.splits prod.splits)

lemma quiet_moveI:
  "s' = goto g c os (s\<lparr> worker_state := w \<rparr>) \<Longrightarrow> task_queue w = task_queue (worker_state s) \<Longrightarrow>
   quiet c \<Longrightarrow> (\<And>q. c = JoinWait q \<Longrightarrow> task_queue (worker_state s) = Some q) \<Longrightarrow> quiet_move g s s'"
  unfolding quiet_move_def by blast

lemma queue_wait_quiet: "quiet_move g s (queue_wait g payload s)"
proof -
  have *: "goto g c os s = goto g c os (s\<lparr> worker_state := worker_state s \<rparr>)" for c os
    by simp
  show ?thesis
    unfolding queue_wait_def
    by (auto split: prod.splits sum.splits bool.splits option.splits
        intro!: quiet_moveI [where w = "worker_state s"])
qed

lemma queue_join_quiet: "quiet_move g s (queue_join g payload s)"
  unfolding queue_join_def
  by (auto split: prod.splits sum.splits bool.splits option.splits
      intro!: quiet_moveI [where w = "worker_state s"])

lemma run_handler_quiet:
  assumes "g < length (greenlets s)" and "pc (greenlets s ! g) = Handler r payload"
  shows "quiet_move g s (run ic iu g s)"
proof (cases r)
  case ShardConfig
  obtain w os err where "shard_config ic iu (worker_state s) payload = (w, os, err)"
    by (cases "shard_config ic iu (worker_state s) payload") auto
  moreover from this have "task_queue w = task_queue (worker_state s)"
    using shard_config_task_queue [of ic iu "worker_state s" payload] by simp
  ultimately show ?thesis using assms ShardConfig
    by (auto simp: run_def intro!: quiet_moveI)
next
  case ShardStop
  obtain w err where "shard_stop (worker_state s) payload = (w, err)"
    by (cases "shard_stop (worker_state s) payload") auto
  moreover from this have "task_queue w = task_queue (worker_state s)"
    using shard_stop_task_queue [of "worker_state s" payload] by simp
  ultimately show ?thesis using assms ShardStop
    by (auto simp: run_def intro!: quiet_moveI)
next
  case RingInit
  obtain w os err where "ring_init (worker_state s) payload = (w, os, err)"
    by (cases "ring_init (worker_state s) payload") auto
  moreover from this have "task_queue w = task_queue (worker_state s)"
    using ring_init_task_queue [of "worker_state s" payload] by simp
  ultimately show ?thesis using assms RingInit
    by (auto simp: run_def intro!: quiet_moveI)
next
  case QueueWait
  with assms show ?thesis by (simp add: run_def queue_wait_quiet)
next
  case QueueJoin
  with assms show ?thesis by (simp add: run_def queue_join_quiet)
qed

lemma quiet_move_frame:
  assumes "quiet_move g s s'"
  shows "queues s' = queues s" and "events s' = events s"
    and "task_queue (worker_state s') = task_queue (worker_state s)"
    and "length (greenlets s') = length (greenlets s)"
    and "h \<noteq> g \<Longrightarrow> greenlets s' ! h = greenlets s ! h"
    and "g < length (greenlets s) \<Longrightarrow> quiet (pc (greenlets s' ! g))"
    and "g < length (greenlets s) \<Longrightarrow> pc (greenlets s' ! g) = JoinWait q \<Longrightarrow>
           task_queue (worker_state s) = Some q"
  using assms unfolding quiet_move_def by (auto simp: goto_def)

lemma quiet_cases:
  "quiet c \<Longrightarrow> c \<noteq> ConsumerStart \<and> (\<forall>q. c \<noteq> BlockedGet q) \<and> (\<forall>q p. c \<noteq> Perform q p) \<and>
     (\<forall>e. c \<noteq> Crashed e)"
  by (cases c) auto

lemma quiet_move_pc:
  assumes "quiet_move g s s'" and "g < length (greenlets s)" and "quiet (pc (greenlets s ! g))"
    and "h < length (greenlets s)"
  shows "pc (greenlets s' ! h) = ConsumerStart \<longleftrightarrow> pc (greenlets s ! h) = ConsumerStart"
    and "pc (greenlets s' ! h) = BlockedGet q \<longleftrightarrow> pc (greenlets s ! h) = BlockedGet q"
    and "pc (greenlets s' ! h) = Perform q p \<longleftrightarrow> pc (greenlets s ! h) = Perform q p"
    and "pc (greenlets s' ! h) = Crashed e \<longleftrightarrow> pc (greenlets s ! h) = Crashed e"
proof -
  have other: "h \<noteq> g \<Longrightarrow> greenlets s' ! h = greenlets s ! h"
    using quiet_move_frame(5) [OF assms(1)] by simp
  have new: "quiet (pc (greenlets s' ! g))"
    using quiet_move_frame(6) [OF assms(1,2)] .
  show "pc (greenlets s' ! h) = ConsumerStart \<longleftrightarrow> pc (greenlets s ! h) = ConsumerStart"
    using other new assms(3) by (cases "h = g") (auto dest: quiet_cases)
  show "pc (greenlets s' ! h) = BlockedGet q \<longleftrightarrow> pc (greenlets s ! h) = BlockedGet q"
    using other new assms(3) by (cases "h = g") (auto dest: quiet_cases)
  show "pc (greenlets s' ! h) = Perform q p \<longleftrightarrow> pc (greenlets s ! h) = Perform q p"
    using other new assms(3) by (cases "h = g") (auto dest: quiet_cases)
  show "pc (greenlets s' ! h) = Crashed e \<longleftrightarrow> pc (greenlets s ! h) = Crashed e"
    using other new assms(3) by (cases "h = g") (auto dest: quiet_cases)
qed

lemma quiet_move_performing:
  assumes "quiet_move g s s'" and "g < length (greenlets s)" and "quiet (pc (greenlets s ! g))"
  shows "performing s' q = performing s q"
  unfolding performing_def quiet_move_frame(4) [OF assms(1)]
  using quiet_move_pc(3) [OF assms] by blast

lemma quiet_move_attached:
  assumes "quiet_move g s s'" and "g < length (greenlets s)" and "quiet (pc (greenlets s ! g))"
  shows "attached s' h = attached s h"
proof (cases "h < length (greenlets s)")
  case True
  show ?thesis
  proof (cases "h = g")
    case False
    with True show ?thesis
      by (simp add: attached_def quiet_move_frame [OF assms(1)] split: pc.splits)
  next
    case h: True
    from assms have "quiet (pc (greenlets s' ! g))" by (simp add: quiet_move_frame)
    then have "\<not> attached s' g" by (cases "pc (greenlets s' ! g)") (auto simp: attached_def)
    moreover from assms(3) have "\<not> attached s g"
      by (cases "pc (greenlets s ! g)") (auto simp: attached_def)
    ultimately show ?thesis using h by simp
  qed
next
  case False
  then show ?thesis by (simp add: attached_def quiet_move_frame [OF assms(1)])
qed

lemma quiet_move_wf:
  assumes "quiet_move g s s'" and "g < length (greenlets s)" and "quiet (pc (greenlets s ! g))"
    and "wf s"
  shows "wf s'"
  unfolding wf_def
proof (intro conjI allI impI)
  fix q assume "task_queue (worker_state s') = Some q"
  with assms show "q < length (queues s')"
    by (simp add: quiet_move_frame wf_def)
next
  fix h q
  assume h: "h < length (greenlets s')"
    and c: "pc (greenlets s' ! h) = JoinWait q \<or> pc (greenlets s' ! h) = BlockedGet q \<or>
          (\<exists>payload. pc (greenlets s' ! h) = Perform q payload)"
  from h have h': "h < length (greenlets s)" by (simp add: quiet_move_frame [OF assms(1)])
  show "q < length (queues s')"
  proof (cases "h = g")
    case False
    with c h' assms(4) show ?thesis
      by (simp add: quiet_move_frame [OF assms(1)] wf_def) blast
  next
    case True
    from c quiet_move_pc(2,3) [OF assms(1-3) h'] assms(3) True
    have "pc (greenlets s' ! g) = JoinWait q"
      by (auto dest: quiet_cases)
    then have "task_queue (worker_state s) = Some q"
      using quiet_move_frame(7) [OF assms(1,2)] by simp
    with assms(4) show ?thesis by (simp add: wf_def quiet_move_frame [OF assms(1)])
  qed
qed

lemma quiet_move_fifo:
  "quiet_move g s s' \<Longrightarrow> fifo s \<Longrightarrow> fifo s'"
  by (simp add: fifo_def quiet_move_frame)

lemma quiet_move_coherent:
  assumes "quiet_move g s s'" and "g < length (greenlets s)" and "quiet (pc (greenlets s ! g))"
    and "coherent s"
  shows "coherent s'"
proof -
  have p: "(pc (greenlets s' ! h) = Perform q payload) = (pc (greenlets s ! h) = Perform q payload)"
    if "h < length (greenlets s)" for h q payload
    using quiet_move_pc(3) [OF assms(1-3) that] .
  have c: "(\<exists>h < length (greenlets s). \<exists>e. pc (greenlets s' ! h) = Crashed e) =
           (\<exists>h < length (greenlets s). \<exists>e. pc (greenlets s ! h) = Crashed e)"
    using quiet_move_pc(4) [OF assms(1-3)] by blast
  show ?thesis
    using assms(4)
    unfolding coherent_def quiet_move_frame(1,3,4) [OF assms(1)]
      quiet_move_performing [OF assms(1-3)] quiet_move_attached [OF assms(1-3)] c
    by (simp add: p)
qed

lemma consumer_get_move:
  assumes "\<forall>q. task_queue (worker_state s) = Some q \<longrightarrow>
             q < length (queues s) \<and>
             unfinished (queues s ! q) = length (items (queues s ! q)) \<and>
             enq (queues s ! q) = taken (queues s ! q) @ items (queues s ! q)"
  shows "\<exists>c Q G. consumer_get g s = goto g c [] (s\<lparr> queues := Q, greenlets := G \<rparr>) \<and>
           cmove s c Q \<and> (G = greenlets s \<or> (\<exists>q. G = map (wake q) (greenlets s)))"
proof (cases "task_queue (worker_state s)")
  case None
  have "consumer_get g s =
          goto g (Crashed AttributeError) [] (s\<lparr> queues := queues s, greenlets := greenlets s \<rparr>)"
    using None by (simp add: consumer_get_def)
  moreover have "cmove s (Crashed AttributeError) (queues s)"
    using None by (simp add: cmove_def)
  ultimately show ?thesis by blast
next
  case (Some q)
  with assms have q: "q < length (queues s)"
    and u: "unfinished (queues s ! q) = length (items (queues s ! q))"
    and f: "enq (queues s ! q) = taken (queues s ! q) @ items (queues s ! q)"
    by auto
  show ?thesis
  proof (cases "items (queues s ! q)")
    case Nil
    have "consumer_get g s =
            goto g (BlockedGet q) [] (s\<lparr> queues := queues s, greenlets := greenlets s \<rparr>)"
      using Some Nil by (simp add: consumer_get_def)
    moreover have "cmove s (BlockedGet q) (queues s)"
      using Some Nil u f by (simp add: cmove_def)
    ultimately show ?thesis by blast
  next
    case (Cons p rest)
    let ?jq = "(queues s ! q)\<lparr> items := rest, taken := taken (queues s ! q) @ [p] \<rparr>"
    show ?thesis
    proof (cases "uow (worker_state s)")
      case (Some u')
      have "consumer_get g s =
              goto g (Perform q p) [] (s\<lparr> queues := (queues s)[q := ?jq], greenlets := greenlets s \<rparr>)"
        using \<open>task_queue (worker_state s) = Some q\<close> Cons Some
        by (simp add: consumer_get_def consumer_take_def Let_def)
      moreover have "cmove s (Perform q p) ((queues s)[q := ?jq])"
        using \<open>task_queue (worker_state s) = Some q\<close> Cons u f q by (simp add: cmove_def)
      ultimately show ?thesis by blast
    next
      case None
      let ?jq' = "?jq\<lparr> unfinished := unfinished (queues s ! q) - 1 \<rparr>"
      let ?G = "if rest = [] then map (wake q) (greenlets s) else greenlets s"
      have "consumer_get g s =
              goto g (Crashed AttributeError) [] (s\<lparr> queues := (queues s)[q := ?jq'], greenlets := ?G \<rparr>)"
        using \<open>task_queue (worker_state s) = Some q\<close> Cons None u q
        by (simp add: consumer_get_def consumer_take_def consumer_raise_def
            finally_task_done_def task_done_def Let_def)
      moreover have "cmove s (Crashed AttributeError) ((queues s)[q := ?jq'])"
        using \<open>task_queue (worker_state s) = Some q\<close> Cons u f q by (simp add: cmove_def)
      moreover have "?G = greenlets s \<or> (\<exists>q. ?G = map (wake q) (greenlets s))"
        by auto
      ultimately show ?thesis by blast
    qed
  qed
qed

lemma cmove_after_task_done:
  assumes "cmove (s\<lparr> queues := Q0 \<rparr>) c Q" and "length Q0 = length (queues s)"
    and "\<forall>q < length Q0. task_queue (worker_state s) \<noteq> Some q \<longrightarrow> Q0 ! q = queues s ! q"
  shows "cmove s c Q"
  using assms unfolding cmove_def by (simp split: option.splits)

lemma attached_iff:
  "attached s g \<longleftrightarrow>
     g < length (greenlets s) \<and>
     (pc (greenlets s ! g) = ConsumerStart \<or> (\<exists>q p. pc (greenlets s ! g) = Perform q p) \<or>
      (\<exists>q. pc (greenlets s ! g) = BlockedGet q \<and> task_queue (worker_state s) = Some q))"
  by (auto simp: attached_def split: pc.splits)

lemma coherent_others_detached:
  assumes "coherent s" and "attached s g" and "h \<noteq> g"
  shows "\<not> attached s h"
  using assms unfolding coherent_def by blast

lemma detached_pc:
  assumes "\<not> attached s h" and "h < length (greenlets s)"
  shows "pc (greenlets s ! h) \<noteq> ConsumerStart" and "pc (greenlets s ! h) \<noteq> Perform q p"
    and "task_queue (worker_state s) = Some q \<Longrightarrow> pc (greenlets s ! h) \<noteq> BlockedGet q"
  using assms by (auto simp: attached_iff)

lemma cmove_invariants:
  assumes co: "coherent s" and w: "wf s" and f: "fifo s"
    and g: "g < length (greenlets s)" and att: "attached s g"
    and m: "cmove s c Q" and s': "s' = goto g c [] (s\<lparr> queues := Q \<rparr>)"
  shows "coherent s' \<and> wf s' \<and> fifo s'"
proof -
  have len: "length (greenlets s') = length (greenlets s)" "length (queues s') = length (queues s)"
    and tq: "task_queue (worker_state s') = task_queue (worker_state s)"
    and qs: "queues s' = Q"
    using m by (simp_all add: s' cmove_def)
  have pcg: "pc (greenlets s' ! g) = c" using g by (simp add: s')
  have pco: "pc (greenlets s' ! h) = pc (greenlets s ! h)" if "h \<noteq> g" for h
    using that by (simp add: s')
  have others: "\<not> attached s h" if "h \<noteq> g" for h
    using coherent_others_detached [OF co att that] .
  have cshape: "(\<exists>e. c = Crashed e) \<or>
      (\<exists>q. task_queue (worker_state s) = Some q \<and> (c = BlockedGet q \<or> (\<exists>p. c = Perform q p)))"
    using m by (auto simp: cmove_def split: option.splits)
  have perf: "performing s' q \<longleftrightarrow> (\<exists>p. c = Perform q p)" for q
  proof
    assume "performing s' q"
    then obtain h p where h: "h < length (greenlets s)" "pc (greenlets s' ! h) = Perform q p"
      by (auto simp: performing_def len)
    show "\<exists>p. c = Perform q p"
    proof (cases "h = g")
      case True with h pcg show ?thesis by auto
    next
      case False
      with h pco detached_pc(2) [OF others [OF False] h(1)] show ?thesis by auto
    qed
  next
    assume "\<exists>p. c = Perform q p"
    with g pcg show "performing s' q" by (auto simp: performing_def len)
  qed
  have att': "attached s' h \<Longrightarrow> h = g" for h
  proof (rule ccontr)
    assume a: "attached s' h" and "h \<noteq> g"
    then have "attached s h"
      using pco [of h] by (simp add: attached_iff len tq)
    with others [OF \<open>h \<noteq> g\<close>] show False by simp
  qed
  have c1: "unfinished (queues s' ! q) =
      length (items (queues s' ! q)) + (if performing s' q then 1 else 0)"
    if q: "q < length (queues s')" for q
  proof (cases "task_queue (worker_state s) = Some q")
    case True
    with m show ?thesis by (simp add: qs perf cmove_def)
  next
    case False
    with m q len have same: "Q ! q = queues s ! q" by (simp add: cmove_def qs)
    from False cshape have np: "\<not> performing s' q" by (auto simp: perf)
    have "\<not> performing s q"
      using co False unfolding coherent_def performing_def by blast
    with co q len have "unfinished (queues s ! q) = length (items (queues s ! q))"
      unfolding coherent_def by simp
    with same np show ?thesis by (simp add: qs)
  qed
  have c2: "task_queue (worker_state s') = Some q"
    if "h < length (greenlets s')" "pc (greenlets s' ! h) = Perform q p" for h q p
  proof (cases "h = g")
    case True
    with that pcg cshape show ?thesis by (auto simp: tq)
  next
    case False
    with that pco detached_pc(2) [OF others [OF False]] len show ?thesis by auto
  qed
  have c4: "items (queues s' ! q) = []"
    if "q < length (queues s')" "task_queue (worker_state s') \<noteq> Some q" for q
  proof -
    from that m len have "Q ! q = queues s ! q" by (simp add: cmove_def qs tq)
    with that co len show ?thesis by (simp add: coherent_def qs tq)
  qed
  have c5: "(\<exists>h. attached s' h) \<or> (\<exists>h < length (greenlets s'). \<exists>e. pc (greenlets s' ! h) = Crashed e)"
    if "task_queue (worker_state s') \<noteq> None"
    using cshape
  proof
    assume "\<exists>e. c = Crashed e"
    with g pcg show ?thesis by (auto simp: len)
  next
    assume "\<exists>q. task_queue (worker_state s) = Some q \<and> (c = BlockedGet q \<or> (\<exists>p. c = Perform q p))"
    with g pcg have "attached s' g" by (auto simp: attached_iff len tq)
    then show ?thesis by blast
  qed
  have co': "coherent s'"
    unfolding coherent_def
  proof (intro conjI allI impI)
    fix q assume "q < length (queues s')"
    then show "unfinished (queues s' ! q) =
      length (items (queues s' ! q)) + (if performing s' q then 1 else 0)" by (rule c1)
  next
    fix h q payload
    assume "h < length (greenlets s')" "pc (greenlets s' ! h) = Perform q payload"
    then show "task_queue (worker_state s') = Some q" by (rule c2)
  next
    fix a b assume "attached s' a \<and> attached s' b"
    then show "a = b" using att' [of a] att' [of b] by simp
  next
    fix q assume "q < length (queues s')" "task_queue (worker_state s') \<noteq> Some q"
    then show "items (queues s' ! q) = []" by (rule c4)
  next
    assume "task_queue (worker_state s') \<noteq> None"
    then show "(\<exists>h. attached s' h) \<or>
      (\<exists>h < length (greenlets s'). \<exists>e. pc (greenlets s' ! h) = Crashed e)" by (rule c5)
  qed
  have wq: "q < length (queues s)" if "task_queue (worker_state s) = Some q" for q
    using w that by (simp add: wf_def)
  have w': "wf s'"
    unfolding wf_def
  proof (intro conjI allI impI)
    fix q assume "task_queue (worker_state s') = Some q"
    then show "q < length (queues s')" using wq by (simp add: tq len)
  next
    fix h q
    assume h: "h < length (greenlets s')"
      and c: "pc (greenlets s' ! h) = JoinWait q \<or> pc (greenlets s' ! h) = BlockedGet q \<or>
          (\<exists>payload. pc (greenlets s' ! h) = Perform q payload)"
    show "q < length (queues s')"
    proof (cases "h = g")
      case True
      with c pcg cshape wq show ?thesis by (auto simp: len)
    next
      case False
      with c h pco [OF False] w show ?thesis
        unfolding wf_def len by auto
    qed
  qed
  have f': "fifo s'"
    unfolding fifo_def
  proof (intro allI impI)
    fix q assume q: "q < length (queues s')"
    show "enq (queues s' ! q) = taken (queues s' ! q) @ items (queues s' ! q)"
    proof (cases "task_queue (worker_state s) = Some q")
      case True
      with m show ?thesis by (simp add: cmove_def qs)
    next
      case False
      with m q len have "Q ! q = queues s ! q" by (simp add: cmove_def qs)
      with f q len show ?thesis by (simp add: fifo_def qs)
    qed
  qed
  from co' w' f' show ?thesis by simp
qed

lemma wake_simps [simp]:
  "resp (wake q gl) = resp gl"
  "pc (wake q gl) = ConsumerStart \<longleftrightarrow> pc gl = ConsumerStart"
  "pc (wake q gl) = BlockedGet q' \<longleftrightarrow> pc gl = BlockedGet q'"
  "pc (wake q gl) = Perform q' p \<longleftrightarrow> pc gl = Perform q' p"
  "pc (wake q gl) = Crashed e \<longleftrightarrow> pc gl = Crashed e"
  "pc (wake q gl) = WaitEvent ev \<longleftrightarrow> pc gl = WaitEvent ev"
  "pc (wake q gl) = Finished err \<longleftrightarrow> pc gl = Finished err"
  "pc (wake q gl) = Handler r payload \<longleftrightarrow> pc gl = Handler r payload"
  "pc (wake q gl) = JoinWait q' \<longleftrightarrow> pc gl = JoinWait q' \<and> q' \<noteq> q"
  "pc (wake q gl) = JoinWoken q' \<longleftrightarrow> pc gl = JoinWoken q' \<or> pc gl = JoinWait q \<and> q' = q"
  by (auto simp: wake_def)

lemma sound_wake:
  assumes "sound s"
  shows "sound (s\<lparr> greenlets := map (wake q) (greenlets s) \<rparr>)" (is "sound ?s'")
proof -
  have perf: "performing ?s' q' = performing s q'" for q'
    unfolding performing_def by auto
  have att: "attached ?s' h = attached s h" for h
    unfolding attached_iff by auto
  have cr: "(\<exists>h < length (greenlets ?s'). \<exists>e. pc (greenlets ?s' ! h) = Crashed e) =
            (\<exists>h < length (greenlets s). \<exists>e. pc (greenlets s ! h) = Crashed e)"
    by auto
  have co: "coherent ?s'"
    using assms unfolding sound_def coherent_def perf att cr by auto
  have w: "wf ?s'"
    using assms unfolding sound_def wf_def by auto
  have f: "fifo ?s'"
    using assms unfolding sound_def fifo_def by simp
  from co w f show ?thesis by (simp add: sound_def)
qed

lemma attached_wake [simp]:
  "attached (s\<lparr> greenlets := map (wake q) (greenlets s) \<rparr>) h = attached s h"
  unfolding attached_iff by auto

lemma cmove_greenlets [simp]: "cmove (s\<lparr> greenlets := G \<rparr>) c Q = cmove s c Q"
  by (simp add: cmove_def)

lemma cmove_sound:
  assumes "sound s" and "g < length (greenlets s)" and "attached s g" and "cmove s c Q"
    and "G = greenlets s \<or> (\<exists>q. G = map (wake q) (greenlets s))"
  shows "sound (goto g c [] (s\<lparr> queues := Q, greenlets := G \<rparr>))"
proof -
  let ?s1 = "s\<lparr> greenlets := G \<rparr>"
  from assms(1,5) have 1: "sound ?s1" by (auto simp: sound_wake)
  from assms(2,5) have 2: "g < length (greenlets ?s1)" by auto
  from assms(3,5) have 3: "attached ?s1 g" by auto
  from assms(4) have 4: "cmove ?s1 c Q" by simp
  have "?s1\<lparr> queues := Q \<rparr> = s\<lparr> queues := Q, greenlets := G \<rparr>" by simp
  with 1 cmove_invariants [OF _ _ _ 2 3 4 refl] show ?thesis by (simp add: sound_def)
qed

lemma settled:
  assumes "sound s" and "attached s g" and "\<forall>q p. pc (greenlets s ! g) \<noteq> Perform q p"
    and "task_queue (worker_state s) = Some q"
  shows "q < length (queues s) \<and>
         unfinished (queues s ! q) = length (items (queues s ! q)) \<and>
         enq (queues s ! q) = taken (queues s ! q) @ items (queues s ! q)"
proof -
  from assms(1,4) have q: "q < length (queues s)" by (simp add: sound_def wf_def)
  have "\<not> performing s q"
  proof
    assume "performing s q"
    then obtain h p where h: "h < length (greenlets s)" "pc (greenlets s ! h) = Perform q p"
      by (auto simp: performing_def)
    then have "attached s h" by (auto simp: attached_iff)
    with assms(1,2) have "h = g" unfolding sound_def coherent_def by blast
    with h assms(3) show False by simp
  qed
  with assms(1) q show ?thesis by (simp add: sound_def coherent_def fifo_def)
qed

lemma sound_consumer_get:
  assumes "sound s" and "g < length (greenlets s)" and "attached s g"
    and "\<forall>q p. pc (greenlets s ! g) \<noteq> Perform q p"
  shows "sound (consumer_get g s)"
proof -
  from settled [OF assms(1,3,4)] consumer_get_move [of s g]
  obtain c Q G where "consumer_get g s = goto g c [] (s\<lparr> queues := Q, greenlets := G \<rparr>)"
    "cmove s c Q" "G = greenlets s \<or> (\<exists>q. G = map (wake q) (greenlets s))"
    by blast
  with cmove_sound [of s g c Q G] assms show ?thesis by simp
qed

lemma performing_unfinished:
  assumes "sound s" and "g < length (greenlets s)" and "pc (greenlets s ! g) = Perform q p"
  shows "task_queue (worker_state s) = Some q \<and> q < length (queues s) \<and>
         unfinished (queues s ! q) = Suc (length (items (queues s ! q))) \<and>
         enq (queues s ! q) = taken (queues s ! q) @ items (queues s ! q) \<and> attached s g"
proof -
  from assms have tq: "task_queue (worker_state s) = Some q"
    unfolding sound_def coherent_def by blast
  with assms(1) have q: "q < length (queues s)" by (simp add: sound_def wf_def)
  from assms(2,3) have pf: "performing s q" by (auto simp: performing_def)
  from assms(1) have "\<forall>q < length (queues s).
         unfinished (queues s ! q) =
           length (items (queues s ! q)) + (if performing s q then 1 else 0)"
    unfolding sound_def coherent_def by blast
  with q pf have u: "unfinished (queues s ! q) = Suc (length (items (queues s ! q)))"
    by simp
  from assms(1) q have f: "enq (queues s ! q) = taken (queues s ! q) @ items (queues s ! q)"
    unfolding sound_def fifo_def by blast
  from assms(2,3) have "attached s g" unfolding attached_iff by blast
  with tq q u f show ?thesis by blast
qed

lemma sound_consumer_return:
  assumes "sound s" and "g < length (greenlets s)" and "pc (greenlets s ! g) = Perform q p"
  shows "sound (consumer_return g s)"
proof -
  note pu = performing_unfinished [OF assms]
  let ?Q0 = "(queues s)[q := (queues s ! q)\<lparr> unfinished := length (items (queues s ! q)) \<rparr>]"
  let ?G0 = "if items (queues s ! q) = [] then map (wake q) (greenlets s) else greenlets s"
  let ?sa = "s\<lparr> greenlets := ?G0 \<rparr>"
  let ?s1 = "?sa\<lparr> queues := ?Q0 \<rparr>"
  have eq: "s\<lparr> queues := ?Q0, greenlets := ?G0 \<rparr> = ?s1" by simp
  have "consumer_return g s = consumer_get g (s\<lparr> queues := ?Q0, greenlets := ?G0 \<rparr>)"
    using pu by (simp add: consumer_return_def finally_task_done_def task_done_def)
  then have ret: "consumer_return g s = consumer_get g ?s1"
    by (simp only: eq)
  have sa: "sound ?sa" using assms(1) by (simp add: sound_wake)
  have ga: "g < length (greenlets ?sa)" using assms(2) by simp
  have atta: "attached ?sa g" using pu by simp
  have "\<exists>c Q G. consumer_get g ?s1 = goto g c [] (?s1\<lparr> queues := Q, greenlets := G \<rparr>) \<and>
          cmove ?s1 c Q \<and> (G = greenlets ?s1 \<or> (\<exists>q. G = map (wake q) (greenlets ?s1)))"
    using pu by (intro consumer_get_move) simp
  then obtain c Q G where c: "consumer_get g ?s1 = goto g c [] (?sa\<lparr> queues := Q, greenlets := G \<rparr>)"
    and m: "cmove ?s1 c Q"
    and G: "G = greenlets ?sa \<or> (\<exists>q. G = map (wake q) (greenlets ?sa))" by auto
  have "cmove ?sa c Q"
    using pu by (intro cmove_after_task_done [OF m]) auto
  from cmove_sound [OF sa ga atta this G] c ret show ?thesis by simp
qed

lemma sound_consumer_raise:
  assumes "sound s" and "g < length (greenlets s)" and "pc (greenlets s ! g) = Perform q p"
  shows "sound (consumer_raise g e s)"
proof -
  note pu = performing_unfinished [OF assms]
  let ?Q0 = "(queues s)[q := (queues s ! q)\<lparr> unfinished := length (items (queues s ! q)) \<rparr>]"
  let ?G0 = "if items (queues s ! q) = [] then map (wake q) (greenlets s) else greenlets s"
  have ret: "consumer_raise g e s = goto g (Crashed e) [] (s\<lparr> queues := ?Q0, greenlets := ?G0 \<rparr>)"
    using pu by (simp add: consumer_raise_def finally_task_done_def task_done_def)
  have m: "cmove s (Crashed e) ?Q0"
    using pu by (simp add: cmove_def)
  have G: "?G0 = greenlets s \<or> (\<exists>q. ?G0 = map (wake q) (greenlets s))" by auto
  from pu have att: "attached s g" by simp
  from cmove_sound [OF assms(1,2) att m G] ret show ?thesis by simp
qed

lemma sound_quiet_move:
  assumes "sound s" and "g < length (greenlets s)" and "quiet (pc (greenlets s ! g))"
    and "quiet_move g s s'"
  shows "sound s'"
  using assms quiet_move_coherent [of g s s'] quiet_move_wf [of g s s'] quiet_move_fifo [of g s s']
  by (simp add: sound_def)

lemma goto_quiet_move:
  "quiet c \<Longrightarrow> (\<And>q. c = JoinWait q \<Longrightarrow> task_queue (worker_state s) = Some q) \<Longrightarrow>
   quiet_move g s (goto g c os s)"
  by (rule quiet_moveI [where w = "worker_state s"]) simp_all

lemma sound_run:
  assumes "sound s"
  shows "sound (run ic iu g s)"
proof (cases "g < length (greenlets s)")
  case False
  with assms show ?thesis by (simp add: run_def)
next
  case g: True
  show ?thesis
  proof (cases "pc (greenlets s ! g)")
    case (Handler r payload)
    with g assms show ?thesis
      using sound_quiet_move [OF assms g _ run_handler_quiet [of g s r payload ic iu]] by simp
  next
    case ConsumerStart
    with g have "attached s g" by (simp add: attached_iff)
    with assms g ConsumerStart show ?thesis
      by (simp add: run_def sound_consumer_get)
  next
    case (WaitEvent ev)
    show ?thesis
    proof (cases "events s ! ev")
      case True
      with g WaitEvent have "run ic iu g s = goto g (Finished None) ok_bokay s"
        by (simp add: run_def)
      moreover have "quiet_move g s (goto g (Finished None) ok_bokay s)"
        by (rule goto_quiet_move) simp_all
      ultimately show ?thesis
        using sound_quiet_move [OF assms g] WaitEvent by simp
    next
      case False
      with g WaitEvent assms show ?thesis by (simp add: run_def)
    qed
  next
    case (JoinWait q)
    with g assms show ?thesis by (simp add: run_def)
  next
    case (JoinWoken q)
    with g have "run ic iu g s = goto g (Finished None) join_done s"
      by (simp add: run_def)
    moreover have "quiet_move g s (goto g (Finished None) join_done s)"
      by (rule goto_quiet_move) simp_all
    ultimately show ?thesis
      using sound_quiet_move [OF assms g] JoinWoken by simp
  next
    case (BlockedGet q)
    show ?thesis
    proof (cases "items (queues s ! q) = []")
      case True
      with g BlockedGet assms show ?thesis by (simp add: run_def)
    next
      case False
      from assms g BlockedGet have q: "q < length (queues s)"
        unfolding sound_def wf_def by blast
      with assms False have tq: "task_queue (worker_state s) = Some q"
        unfolding sound_def coherent_def by blast
      with g BlockedGet have att: "attached s g" by (simp add: attached_iff)
      from tq False have "consumer_take g q s = consumer_get g s"
        by (simp add: consumer_get_def)
      with g BlockedGet False have "run ic iu g s = consumer_get g s"
        by (simp add: run_def)
      with assms g att BlockedGet show ?thesis by (simp add: sound_consumer_get)
    qed
  next
    case (Perform q payload)
    with g assms show ?thesis by (simp add: run_def)
  next
    case (Finished err)
    with g assms show ?thesis by (simp add: run_def)
  next
    case (Crashed e)
    with g assms show ?thesis by (simp add: run_def)
  qed
qed

lemma sound_spawn_handler:
  assumes "sound s"
  shows "sound (s\<lparr> greenlets := greenlets s @ [\<lparr> pc = Handler r payload, resp = os \<rparr>] \<rparr>)"
    (is "sound ?s'")
proof -
  have pcs: "pc (greenlets ?s' ! h) = (if h < length (greenlets s) then pc (greenlets s ! h)
                                       else Handler r payload)"
    if "h < length (greenlets ?s')" for h
    using that by (auto simp: nth_append less_Suc_eq)
  have perf: "performing ?s' q = performing s q" for q
    unfolding performing_def using pcs by (auto simp: less_Suc_eq nth_append)
  have att: "attached ?s' h = attached s h" for h
    unfolding attached_iff by (auto simp: less_Suc_eq nth_append)
  have cr: "(\<exists>h < length (greenlets ?s'). \<exists>e. pc (greenlets ?s' ! h) = Crashed e) =
            (\<exists>h < length (greenlets s). \<exists>e. pc (greenlets s ! h) = Crashed e)"
    by (auto simp: less_Suc_eq nth_append)
  have co: "coherent ?s'"
    using assms unfolding sound_def coherent_def perf att cr
    by (auto simp: less_Suc_eq nth_append)
  have w: "wf ?s'"
    using assms unfolding sound_def wf_def
    by (auto simp: less_Suc_eq nth_append)
  have f: "fifo ?s'"
    using assms unfolding sound_def fifo_def by simp
  from co w f show ?thesis by (simp add: sound_def)
qed

lemma sound_put:
  assumes "sound s" and "task_queue (worker_state s) = Some q"
  shows "sound (s\<lparr> queues := (queues s)[q := put_nowait payload (queues s ! q)] \<rparr>)"
    (is "sound ?s'")
proof -
  from assms have q: "q < length (queues s)" by (simp add: sound_def wf_def)
  have perf: "performing ?s' q' = performing s q'" for q'
    unfolding performing_def by simp
  have att: "attached ?s' h = attached s h" for h
    unfolding attached_iff by simp
  have co: "coherent ?s'"
    using assms q unfolding sound_def coherent_def perf att
    by (auto simp: nth_list_update put_nowait_def)
  have w: "wf ?s'"
    using assms unfolding sound_def wf_def by simp
  have f: "fifo ?s'"
    using assms q unfolding sound_def fifo_def
    by (auto simp: nth_list_update put_nowait_def)
  from co w f show ?thesis by (simp add: sound_def)
qed

lemma sound_frame:
  assumes "sound s" and "task_queue (worker_state s') = task_queue (worker_state s)"
    and "queues s' = queues s" and "greenlets s' = greenlets s"
  shows "sound s'"
proof -
  have perf: "performing s' q' = performing s q'" for q'
    unfolding performing_def assms(4) by simp
  have att: "attached s' h = attached s h" for h
    unfolding attached_iff assms(2,4) by simp
  show ?thesis
    using assms(1) unfolding sound_def coherent_def perf att wf_def fifo_def assms(2,3,4) by simp
qed

lemma idle_pc:
  assumes "idle s" and "h < length (greenlets s)"
  shows "pc (greenlets s ! h) \<noteq> ConsumerStart" and "pc (greenlets s ! h) \<noteq> Perform q p"
  using assms by (auto simp: idle_def list_all_length)

lemma sound_prep:
  assumes "sound s" and "idle s"
  shows "sound (step ic iu s PrepTaskQueue)" (is "sound ?s'")
proof -
  let ?n = "length (queues s)"
  let ?k = "length (greenlets s)"
  have tq': "task_queue (worker_state ?s') = Some ?n" by simp
  have qs': "queues ?s' = queues s @ [JoinableQueue]" by simp
  have len: "length (greenlets ?s') = Suc ?k" by simp
  have pc_old: "pc (greenlets ?s' ! h) = pc (greenlets s ! h)" if "h < ?k" for h
    using that by (simp add: nth_append)
  have pc_new: "pc (greenlets ?s' ! ?k) = ConsumerStart" by simp
  have no_perf: "\<not> performing ?s' q" for q
  proof
    assume "performing ?s' q"
    then obtain h p where h: "h < Suc ?k" "pc (greenlets ?s' ! h) = Perform q p"
      unfolding performing_def len by blast
    show False
    proof (cases "h < ?k")
      case True
      with h pc_old idle_pc(2) [OF assms(2) True] show False by simp
    next
      case False
      with h have "h = ?k" by simp
      with h pc_new show False by simp
    qed
  qed
  have att: "attached ?s' h \<longleftrightarrow> h = ?k" for h
  proof
    assume a: "attached ?s' h"
    show "h = ?k"
    proof (rule ccontr)
      assume "h \<noteq> ?k"
      with a have h: "h < ?k" by (simp add: attached_iff)
      from a h pc_old [OF h] idle_pc [OF assms(2) h]
      have "pc (greenlets s ! h) = BlockedGet ?n"
        unfolding attached_iff tq' by auto
      with assms(1) h have "?n < length (queues s)"
        unfolding sound_def wf_def by blast
      then show False by simp
    qed
  next
    assume "h = ?k"
    then show "attached ?s' h" using pc_new by (simp add: attached_iff)
  qed
  have items_old: "items (queues s ! q) = []" if "q < ?n" for q
  proof (cases "task_queue (worker_state s) = Some q")
    case True
    with assms(2) show ?thesis by (simp add: idle_def)
  next
    case False
    with assms(1) that show ?thesis unfolding sound_def coherent_def by blast
  qed
  have unf_old: "unfinished (queues s ! q) = 0" if "q < ?n" for q
  proof -
    have "\<not> performing s q"
      using idle_pc(2) [OF assms(2)] unfolding performing_def by blast
    with assms(1) that items_old [OF that] show ?thesis
      unfolding sound_def coherent_def by simp
  qed
  have co: "coherent ?s'"
    unfolding coherent_def
  proof (intro conjI allI impI)
    fix q assume "q < length (queues ?s')"
    then show "unfinished (queues ?s' ! q) =
        length (items (queues ?s' ! q)) + (if performing ?s' q then 1 else 0)"
      using no_perf [of q] items_old [of q] unf_old [of q]
      by (cases "q < ?n") (simp_all add: nth_append JoinableQueue_def less_Suc_eq)
  next
    fix h q payload
    assume "h < length (greenlets ?s')" "pc (greenlets ?s' ! h) = Perform q payload"
    then have "performing ?s' q" unfolding performing_def by blast
    with no_perf show "task_queue (worker_state ?s') = Some q" by simp
  next
    fix a b assume "attached ?s' a \<and> attached ?s' b"
    then show "a = b" unfolding att by simp
  next
    fix q assume "q < length (queues ?s')" "task_queue (worker_state ?s') \<noteq> Some q"
    then show "items (queues ?s' ! q) = []"
      using items_old [of q] by (simp add: nth_append less_Suc_eq)
  next
    assume "task_queue (worker_state ?s') \<noteq> None"
    have "attached ?s' ?k" unfolding att by simp
    then show "(\<exists>g. attached ?s' g) \<or>
        (\<exists>g < length (greenlets ?s'). \<exists>e. pc (greenlets ?s' ! g) = Crashed e)" by blast
  qed
  have w: "wf ?s'"
    using assms(1) unfolding sound_def wf_def
    by (auto simp: nth_append less_Suc_eq)
  have f: "fifo ?s'"
    using assms(1) unfolding sound_def fifo_def
    by (auto simp: nth_append less_Suc_eq JoinableQueue_def)
  from co w f show ?thesis by (simp add: sound_def)
qed

lemma sound_step:
  assumes "sound s" and "a = PrepTaskQueue \<longrightarrow> idle s"
  shows "sound (step ic iu s a)"
proof (cases a)
  case (Request r payload)
  with assms show ?thesis by (simp add: sound_spawn_handler)
next
  case (Run g)
  with assms show ?thesis by (simp add: sound_run)
next
  case (TaskReturns g)
  with assms show ?thesis
    by (auto simp: sound_consumer_return split: pc.splits)
next
  case (TaskRaises g e)
  with assms show ?thesis
    by (auto simp: sound_consumer_raise split: pc.splits)
next
  case PrepTaskQueue
  with assms show ?thesis using sound_prep by blast
next
  case (PutTaskQueue payload)
  with assms show ?thesis
    by (auto simp: sound_put split: option.splits)
next
  case EventBegin
  with assms(1) show ?thesis by (auto intro: sound_frame)
next
  case EventEnd
  with assms(1) show ?thesis by (auto intro: sound_frame split: option.splits)
qed

lemma sound_init: "sound init_sys"
  by (simp add: sound_def coherent_def wf_def fifo_def init_sys_def Worker_init_def
      performing_def attached_iff)

lemma sound_exec:
  "sound s \<Longrightarrow> admissible ic iu s acts \<Longrightarrow> sound (exec ic iu s acts)"
proof (induction acts arbitrary: s)
  case Nil
  then show ?case by (simp add: exec_def)
next
  case (Cons a acts)
  from Cons.prems have "sound (step ic iu s a)" by (simp add: sound_step)
  with Cons show ?case by (simp add: exec_def)
qed


section \<open>The wait of the barrier\<close>

lemma woke_refl [simp]: "woke s s h"
  by (simp add: woke_def)

lemma woke_goto [simp]: "h \<noteq> g \<Longrightarrow> woke s (goto g c os s') h = woke s s' h"
  by (simp add: woke_def)

lemma woke_same:
  "woke s s' h \<Longrightarrow> \<forall>q. pc (greenlets s ! h) \<noteq> JoinWait q \<Longrightarrow> greenlets s' ! h = greenlets s ! h"
  by (auto simp: woke_def)

lemma woke_other:
  "woke s s' h \<Longrightarrow> pc (greenlets s ! h) = JoinWait q \<Longrightarrow> task_queue (worker_state s) \<noteq> Some q \<Longrightarrow>
   greenlets s' ! h = greenlets s ! h"
  by (auto simp: woke_def)

lemma woke_resp: "woke s s' h \<Longrightarrow> resp (greenlets s' ! h) = resp (greenlets s ! h)"
  by (auto simp: woke_def)

lemma woke_from:
  assumes "woke s1 s' h" and "greenlets s1 = greenlets s"
    and "task_queue (worker_state s1) = task_queue (worker_state s)"
    and "length (queues s1) = length (queues s)"
    and "\<And>q. unfinished (queues s1 ! q) = unfinished (queues s ! q)"
  shows "woke s s' h"
  using assms by (simp add: woke_def)

lemma woke_trans:
  assumes 1: "woke s s1 h" and 2: "woke s1 s2 h"
    and t1: "task_queue (worker_state s1) = task_queue (worker_state s)"
    and t2: "task_queue (worker_state s2) = task_queue (worker_state s)"
    and len: "length (queues s1) = length (queues s)"
    and le: "\<And>q. unfinished (queues s2 ! q) \<le> unfinished (queues s1 ! q)"
  shows "woke s s2 h"
proof -
  from 1 consider
    (same) "greenlets s1 ! h = greenlets s ! h"
      "\<forall>q < length (queues s).
         pc (greenlets s ! h) = JoinWait q \<and> 0 < unfinished (queues s ! q) \<longrightarrow>
           0 < unfinished (queues s1 ! q)"
    | (woken) q where "task_queue (worker_state s) = Some q"
      "pc (greenlets s ! h) = JoinWait q"
      "q < length (queues s) \<longrightarrow> unfinished (queues s1 ! q) = 0"
      "greenlets s1 ! h = (greenlets s ! h)\<lparr> pc := JoinWoken q \<rparr>"
    unfolding woke_def by blast
  then show ?thesis
  proof cases
    case same
    from 2 same t1 len show ?thesis
      unfolding woke_def by auto
  next
    case woken
    from woken(4) have "\<forall>q'. pc (greenlets s1 ! h) \<noteq> JoinWait q'" by simp
    from woke_same [OF 2 this] woken(4)
    have g2: "greenlets s2 ! h = (greenlets s ! h)\<lparr> pc := JoinWoken q \<rparr>" by simp
    have "q < length (queues s) \<longrightarrow> unfinished (queues s2 ! q) = 0"
      using woken(3) le [of q] by auto
    with woken(1,2) g2 t2 show ?thesis unfolding woke_def by auto
  qed
qed

lemma finally_task_done_frame:
  assumes "finally_task_done s = Inr s'"
  shows "worker_state s' = worker_state s" and "events s' = events s"
    and "length (greenlets s') = length (greenlets s)"
    and "length (queues s') = length (queues s)"
  using assms by (auto simp: finally_task_done_def split: option.splits sum.splits if_splits)

lemma task_done_unfinished:
  "task_done jq = Inr jq' \<Longrightarrow> 0 < unfinished jq \<and> unfinished jq' = unfinished jq - 1 \<and>
     enq jq' = enq jq \<and> items jq' = items jq \<and> taken jq' = taken jq"
  by (auto simp: task_done_def split: if_splits)

lemma finally_task_done_woke:
  assumes "finally_task_done s = Inr s'" and "h < length (greenlets s)"
  shows "woke s s' h"
proof -
  from assms(1) obtain q jq where q: "task_queue (worker_state s) = Some q"
    and jq: "task_done (queues s ! q) = Inr jq"
    and s': "s' = s\<lparr> queues := (queues s)[q := jq],
                     greenlets := (if unfinished jq = 0 then map (wake q) (greenlets s)
                                   else greenlets s) \<rparr>"
    by (auto simp: finally_task_done_def split: option.splits sum.splits)
  note td = task_done_unfinished [OF jq]
  have other: "unfinished ((queues s)[q := jq] ! q') = unfinished (queues s ! q')" if "q' \<noteq> q" for q'
    using that by simp
  show ?thesis
  proof (cases "unfinished jq = 0 \<and> pc (greenlets s ! h) = JoinWait q")
    case True
    with assms(2) q show ?thesis
      unfolding woke_def s' by (auto simp: wake_def)
  next
    case False
    then have "greenlets s' ! h = greenlets s ! h"
      using assms(2) unfolding s' by (auto simp: wake_def)
    moreover have "0 < unfinished (queues s' ! q')"
      if "q' < length (queues s)" "pc (greenlets s ! h) = JoinWait q'" "0 < unfinished (queues s ! q')"
      for q'
    proof (cases "q' = q")
      case True
      with False that show ?thesis unfolding s' by simp
    next
      case ne: False
      with that other [OF ne] show ?thesis unfolding s' by simp
    qed
    ultimately show ?thesis unfolding woke_def by blast
  qed
qed

lemma finally_task_done_unfinished_le:
  assumes "finally_task_done s = Inr s'"
  shows "unfinished (queues s' ! q) \<le> unfinished (queues s ! q)"
proof -
  from assms obtain q0 jq where q: "task_queue (worker_state s) = Some q0"
    and jq: "task_done (queues s ! q0) = Inr jq"
    and s': "queues s' = (queues s)[q0 := jq]"
    by (auto simp: finally_task_done_def split: option.splits sum.splits)
  note td = task_done_unfinished [OF jq]
  show ?thesis
  proof (cases "q0 < length (queues s)")
    case True
    with td show ?thesis unfolding s' by (cases "q = q0") simp_all
  next
    case False
    then show ?thesis unfolding s' by (simp add: list_update_beyond)
  qed
qed

lemma finally_task_done_enq:
  assumes "finally_task_done s = Inr s'"
  shows "enq (queues s' ! q) = enq (queues s ! q)"
proof -
  from assms obtain q0 jq where q: "task_queue (worker_state s) = Some q0"
    and jq: "task_done (queues s ! q0) = Inr jq"
    and s': "queues s' = (queues s)[q0 := jq]"
    by (auto simp: finally_task_done_def split: option.splits sum.splits)
  note td = task_done_unfinished [OF jq]
  show ?thesis
  proof (cases "q0 < length (queues s)")
    case True
    with td show ?thesis unfolding s' by (cases "q = q0") simp_all
  next
    case False
    then show ?thesis unfolding s' by (simp add: list_update_beyond)
  qed
qed

lemma consumer_raise_frame:
  "worker_state (consumer_raise g e s) = worker_state s"
  "events (consumer_raise g e s) = events s"
  "length (greenlets (consumer_raise g e s)) = length (greenlets s)"
  "length (queues (consumer_raise g e s)) = length (queues s)"
  by (auto simp: consumer_raise_def split: sum.splits dest: finally_task_done_frame)

lemma consumer_raise_woke:
  "h \<noteq> g \<Longrightarrow> h < length (greenlets s) \<Longrightarrow> woke s (consumer_raise g e s) h"
  by (auto simp: consumer_raise_def split: sum.splits dest: finally_task_done_woke)

lemma consumer_raise_unfinished_le:
  "unfinished (queues (consumer_raise g e s) ! q) \<le> unfinished (queues s ! q)"
  by (auto simp: consumer_raise_def split: sum.splits dest: finally_task_done_unfinished_le)

lemma consumer_raise_enq:
  "enq (queues (consumer_raise g e s) ! q) = enq (queues s ! q)"
  by (auto simp: consumer_raise_def split: sum.splits dest: finally_task_done_enq)

lemma take_fields:
  "unfinished ((qs[q' := (qs ! q')\<lparr> items := xs, taken := ys \<rparr>]) ! q) = unfinished (qs ! q)"
  "enq ((qs[q' := (qs ! q')\<lparr> items := xs, taken := ys \<rparr>]) ! q) = enq (qs ! q)"
  by (cases "q' < length qs"; simp add: nth_list_update list_update_beyond)+

lemma consumer_take_frame:
  "worker_state (consumer_take g q s) = worker_state s"
  "events (consumer_take g q s) = events s"
  "length (greenlets (consumer_take g q s)) = length (greenlets s)"
  "length (queues (consumer_take g q s)) = length (queues s)"
  by (simp_all add: consumer_take_def Let_def consumer_raise_frame split: option.splits)

lemma consumer_take_woke:
  assumes "h \<noteq> g" and "h < length (greenlets s)"
  shows "woke s (consumer_take g q s) h"
proof (cases "uow (worker_state s)")
  case None
  let ?s1 = "s\<lparr> queues := (queues s)[q := (queues s ! q)\<lparr> items := tl (items (queues s ! q)),
                taken := taken (queues s ! q) @ [hd (items (queues s ! q))] \<rparr>] \<rparr>"
  have "woke ?s1 (consumer_raise g AttributeError ?s1) h"
    using assms by (intro consumer_raise_woke) simp_all
  then have "woke s (consumer_raise g AttributeError ?s1) h"
    by (rule woke_from) (simp_all add: take_fields)
  with None show ?thesis by (simp add: consumer_take_def Let_def)
next
  case (Some u)
  with assms show ?thesis
    by (simp add: consumer_take_def Let_def woke_def take_fields)
qed

lemma consumer_take_unfinished_le:
  "unfinished (queues (consumer_take g q' s) ! q) \<le> unfinished (queues s ! q)"
proof (cases "uow (worker_state s)")
  case None
  let ?s1 = "s\<lparr> queues := (queues s)[q' := (queues s ! q')\<lparr> items := tl (items (queues s ! q')),
                taken := taken (queues s ! q') @ [hd (items (queues s ! q'))] \<rparr>] \<rparr>"
  have "unfinished (queues (consumer_raise g AttributeError ?s1) ! q) \<le> unfinished (queues ?s1 ! q)"
    by (rule consumer_raise_unfinished_le)
  with None show ?thesis by (simp add: consumer_take_def Let_def take_fields)
next
  case (Some u)
  then show ?thesis by (simp add: consumer_take_def Let_def take_fields)
qed

lemma consumer_take_enq:
  "enq (queues (consumer_take g q' s) ! q) = enq (queues s ! q)"
  by (simp add: consumer_take_def Let_def consumer_raise_enq take_fields split: option.splits)

lemma consumer_get_frame:
  "worker_state (consumer_get g s) = worker_state s"
  "events (consumer_get g s) = events s"
  "length (greenlets (consumer_get g s)) = length (greenlets s)"
  "length (queues (consumer_get g s)) = length (queues s)"
  by (simp_all add: consumer_get_def consumer_take_frame split: option.splits)

lemma consumer_get_woke:
  "h \<noteq> g \<Longrightarrow> h < length (greenlets s) \<Longrightarrow> woke s (consumer_get g s) h"
  by (simp add: consumer_get_def consumer_take_woke split: option.splits)

lemma consumer_get_unfinished_le:
  "unfinished (queues (consumer_get g s) ! q) \<le> unfinished (queues s ! q)"
  by (simp add: consumer_get_def consumer_take_unfinished_le split: option.splits)

lemma consumer_get_enq:
  "enq (queues (consumer_get g s) ! q) = enq (queues s ! q)"
  by (simp add: consumer_get_def consumer_take_enq split: option.splits)

lemma consumer_return_frame:
  "worker_state (consumer_return g s) = worker_state s"
  "events (consumer_return g s) = events s"
  "length (greenlets (consumer_return g s)) = length (greenlets s)"
  "length (queues (consumer_return g s)) = length (queues s)"
  by (auto simp: consumer_return_def consumer_get_frame split: sum.splits
      dest: finally_task_done_frame)

lemma consumer_return_woke:
  assumes "h \<noteq> g" and "h < length (greenlets s)"
  shows "woke s (consumer_return g s) h"
proof (cases "finally_task_done s")
  case (Inl e)
  with assms show ?thesis by (simp add: consumer_return_def)
next
  case (Inr s1)
  note fr = finally_task_done_frame [OF Inr]
  have 1: "woke s s1 h" using Inr assms(2) by (rule finally_task_done_woke)
  have 2: "woke s1 (consumer_get g s1) h"
    using assms fr by (intro consumer_get_woke) simp_all
  have "woke s (consumer_get g s1) h"
    using 1 2 by (rule woke_trans) (simp_all add: fr consumer_get_frame consumer_get_unfinished_le)
  with Inr show ?thesis by (simp add: consumer_return_def)
qed

lemma consumer_return_unfinished_le:
  "unfinished (queues (consumer_return g s) ! q) \<le> unfinished (queues s ! q)"
proof (cases "finally_task_done s")
  case (Inl e)
  then show ?thesis by (simp add: consumer_return_def)
next
  case (Inr s1)
  from finally_task_done_unfinished_le [OF Inr, of q] consumer_get_unfinished_le [of g s1 q] Inr
  show ?thesis by (simp add: consumer_return_def)
qed

lemma consumer_return_enq:
  "enq (queues (consumer_return g s) ! q) = enq (queues s ! q)"
  by (auto simp: consumer_return_def consumer_get_enq split: sum.splits dest: finally_task_done_enq)

lemma quiet_move_events: "quiet_move g s s' \<Longrightarrow> events s' = events s"
  by (rule quiet_move_frame)

lemma run_frame:
  "events (run ic iu g s) = events s"
  "length (greenlets (run ic iu g s)) = length (greenlets s)"
  "task_queue (worker_state (run ic iu g s)) = task_queue (worker_state s)"
  "length (queues (run ic iu g s)) = length (queues s)"
proof -
  have "events (run ic iu g s) = events s \<and>
        length (greenlets (run ic iu g s)) = length (greenlets s) \<and>
        task_queue (worker_state (run ic iu g s)) = task_queue (worker_state s) \<and>
        length (queues (run ic iu g s)) = length (queues s)"
  proof (cases "g < length (greenlets s)")
    case False
    then show ?thesis by (simp add: run_def)
  next
    case g: True
    show ?thesis
    proof (cases "pc (greenlets s ! g)")
      case (Handler r payload)
      from run_handler_quiet [OF g Handler, of ic iu] show ?thesis
        by (simp add: quiet_move_frame)
    qed (use g in \<open>simp_all add: run_def consumer_get_frame consumer_take_frame\<close>)
  qed
  then show "events (run ic iu g s) = events s"
    "length (greenlets (run ic iu g s)) = length (greenlets s)"
    "task_queue (worker_state (run ic iu g s)) = task_queue (worker_state s)"
    "length (queues (run ic iu g s)) = length (queues s)"
    by simp_all
qed

lemma run_woke:
  assumes "h \<noteq> g" and "h < length (greenlets s)"
  shows "woke s (run ic iu g s) h"
proof (cases "g < length (greenlets s)")
  case False
  then show ?thesis by (simp add: run_def)
next
  case g: True
  show ?thesis
  proof (cases "pc (greenlets s ! g)")
    case (Handler r payload)
    from run_handler_quiet [OF g Handler, of ic iu] assms show ?thesis
      by (simp add: quiet_move_frame woke_def)
  qed (use g assms in \<open>simp_all add: run_def consumer_get_woke consumer_take_woke\<close>)
qed

lemma step_lengths:
  "length (greenlets s) \<le> length (greenlets (step ic iu s a))"
  "length (queues s) \<le> length (queues (step ic iu s a))"
  "length (events s) \<le> length (events (step ic iu s a))"
  by (cases a; simp add: run_frame consumer_return_frame consumer_raise_frame
      split: pc.splits option.splits)+

lemma flag_stays: "xs ! e \<Longrightarrow> e < length xs \<Longrightarrow> xs[i := True] ! e"
  by (cases "i = e") simp_all

lemma step_events:
  "ev < length (events s) \<Longrightarrow> events s ! ev \<Longrightarrow> events (step ic iu s a) ! ev"
  by (cases a)
    (simp_all add: run_frame consumer_return_frame consumer_raise_frame nth_append flag_stays
      split: pc.splits option.splits)

lemma step_woke:
  assumes "h < length (greenlets s)" and "a \<noteq> Run h" and "a \<noteq> TaskReturns h"
    and "\<forall>e. a \<noteq> TaskRaises h e"
  shows "woke s (step ic iu s a) h"
proof (cases a)
  case (Request r payload)
  with assms(1) show ?thesis by (simp add: woke_def nth_append)
next
  case (Run g)
  with assms show ?thesis by (simp add: run_woke)
next
  case (TaskReturns g)
  with assms show ?thesis by (simp add: consumer_return_woke split: pc.splits)
next
  case (TaskRaises g e)
  with assms show ?thesis by (simp add: consumer_raise_woke split: pc.splits)
next
  case PrepTaskQueue
  with assms(1) show ?thesis by (simp add: woke_def nth_append)
next
  case (PutTaskQueue payload)
  show ?thesis
  proof (cases "task_queue (worker_state s)")
    case None
    with PutTaskQueue show ?thesis by simp
  next
    case (Some q0)
    have "0 < unfinished ((queues s)[q0 := put_nowait payload (queues s ! q0)] ! q)"
      if "q < length (queues s)" "0 < unfinished (queues s ! q)" for q
      using that by (cases "q = q0") (simp_all add: put_nowait_def)
    with PutTaskQueue Some show ?thesis by (simp add: woke_def)
  qed
next
  case EventBegin
  then show ?thesis by (simp add: woke_def)
next
  case EventEnd
  then show ?thesis by (simp add: woke_def split: option.splits)
qed

lemma waiting_step:
  assumes "waiting g ev rs s"
  shows "waiting g ev rs (step ic iu s a)"
proof -
  from assms have g: "g < length (greenlets s)" and ev: "ev < length (events s)"
    and nj: "\<forall>q. pc (greenlets s ! g) \<noteq> JoinWait q"
    and np: "\<forall>q p. pc (greenlets s ! g) \<noteq> Perform q p"
    by (auto simp: waiting_def)
  from g step_lengths(1) [of s ic iu a] have g': "g < length (greenlets (step ic iu s a))"
    by simp
  from ev step_lengths(3) [of s ic iu a] have ev': "ev < length (events (step ic iu s a))"
    by simp
  consider (run) "a = Run g" | (ret) "a = TaskReturns g" | (exc) e where "a = TaskRaises g e"
    | (other) "a \<noteq> Run g" "a \<noteq> TaskReturns g" "\<forall>e. a \<noteq> TaskRaises g e"
    by blast
  then show ?thesis
  proof cases
    case run
    with assms show ?thesis
      by (auto simp: waiting_def run_def split: if_splits)
  next
    case ret
    with assms g np show ?thesis by (simp split: pc.splits)
  next
    case exc
    with assms g np show ?thesis by (simp split: pc.splits)
  next
    case other
    from woke_same [OF step_woke [OF g other, of ic iu] nj]
    have "greenlets (step ic iu s a) ! g = greenlets s ! g" .
    with assms g' ev' step_events [OF ev, of ic iu a] show ?thesis
      by (auto simp: waiting_def)
  qed
qed

lemma waiting_exec: "waiting g ev rs s \<Longrightarrow> waiting g ev rs (exec ic iu s acts)"
proof (induction acts arbitrary: s)
  case Nil
  then show ?case by (simp add: exec_def)
next
  case (Cons a acts)
  from Cons.prems have "waiting g ev rs (step ic iu s a)" by (rule waiting_step)
  from Cons.IH [OF this] show ?case by (simp add: exec_def)
qed

lemma exec_append: "exec ic iu s (as @ bs) = exec ic iu (exec ic iu s as) bs"
  by (simp add: exec_def)

lemma exec_Cons: "exec ic iu s (a # as) = exec ic iu (step ic iu s a) as"
  by (simp add: exec_def)

lemma exec_Nil: "exec ic iu s [] = s"
  by (simp add: exec_def)


text \<open>
  Claim C5. A \<^verbatim>\<open>queue_wait\<close> greenlet whose payload carries the Worker's credential:
  when the field \<^verbatim>\<open>_task_event\<close> is \<^verbatim>\<open>None\<close>, it answers \<^verbatim>\<open>Bokay\<close> in the very
  step in which it runs; when the field holds an event that is not set, it blocks
  without answering, and whatever happens afterwards, either it is still blocked with
  nothing written, or the event has been set and its answer is \<^verbatim>\<open>Bokay\<close>.
\<close>

theorem queue_wait_acknowledges:
  assumes "g < length (greenlets s)"
    and "pc (greenlets s ! g) = Handler QueueWait payload"
    and "creds_match (worker_state s) payload = Inr True"
  shows "(task_event (worker_state s) = None \<longrightarrow>
            run ic iu g s = goto g (Finished None) ok_bokay s) \<and>
         (\<forall>ev. task_event (worker_state s) = Some ev \<and> ev < length (events s) \<and> \<not> events s ! ev \<longrightarrow>
            run ic iu g s = goto g (WaitEvent ev) [] s \<and>
            (\<forall>acts.
               (pc (greenlets (exec ic iu (run ic iu g s) acts) ! g) = WaitEvent ev \<and>
                resp (greenlets (exec ic iu (run ic iu g s) acts) ! g) = resp (greenlets s ! g)) \<or>
               (events (exec ic iu (run ic iu g s) acts) ! ev \<and>
                pc (greenlets (exec ic iu (run ic iu g s) acts) ! g) = Finished None \<and>
                resp (greenlets (exec ic iu (run ic iu g s) acts) ! g) =
                  resp (greenlets s ! g) @ ok_bokay)))"
proof (intro conjI allI impI)
  assume "task_event (worker_state s) = None"
  with assms show "run ic iu g s = goto g (Finished None) ok_bokay s"
    by (simp add: run_def queue_wait_def auth_request_def)
next
  fix ev
  assume ev: "task_event (worker_state s) = Some ev \<and> ev < length (events s) \<and> \<not> events s ! ev"
  with assms show r: "run ic iu g s = goto g (WaitEvent ev) [] s"
    by (simp add: run_def queue_wait_def auth_request_def)
  fix acts
  from assms(1) ev have "waiting g ev (resp (greenlets s ! g)) (goto g (WaitEvent ev) [] s)"
    by (simp add: waiting_def)
  from waiting_exec [OF this, of ic iu acts] r
  show "(pc (greenlets (exec ic iu (run ic iu g s) acts) ! g) = WaitEvent ev \<and>
                resp (greenlets (exec ic iu (run ic iu g s) acts) ! g) = resp (greenlets s ! g)) \<or>
               (events (exec ic iu (run ic iu g s) acts) ! ev \<and>
                pc (greenlets (exec ic iu (run ic iu g s) acts) ! g) = Finished None \<and>
                resp (greenlets (exec ic iu (run ic iu g s) acts) ! g) =
                  resp (greenlets s ! g) @ ok_bokay)"
    by (simp add: waiting_def)
qed

lemma waiting_sys_eq:
  "waiting_sys =
     \<lparr> worker_state = \<lparr> is_config = True, server_stopped = False, prefix = JStr ''p'',
          shard_id = JStr ''shard/0'', ring = JNull, task_event = Some 0, task_queue = None,
          uow = Some (JStr ''echo'', JStr ''p'') \<rparr>,
       queues = [], events = [False],
       greenlets = [\<lparr> pc = Finished None, resp = ok_bokay \<rparr>,
                    \<lparr> pc = Handler QueueWait (credentials (JStr ''p'') (JStr ''shard/0'')),
                      resp = [] \<rparr>] \<rparr>"
  by (simp add: waiting_sys_def waiting_run_def run_defs)


theorem queue_wait_acknowledges_witness:
  "pc (greenlets (exec echo_factory echo_uow
         (run echo_factory echo_uow 1 waiting_sys) [Run 1]) ! 1) = WaitEvent 0 \<and>
   resp (greenlets (exec echo_factory echo_uow
         (run echo_factory echo_uow 1 waiting_sys) [Run 1]) ! 1) = [] \<and>
   events (exec echo_factory echo_uow
         (run echo_factory echo_uow 1 waiting_sys) [EventEnd, Run 1]) ! 0 \<and>
   resp (greenlets (exec echo_factory echo_uow
         (run echo_factory echo_uow 1 waiting_sys) [EventEnd, Run 1]) ! 1) = ok_bokay \<and>
   resp (greenlets (run echo_factory echo_uow 1 no_phase_sys) ! 1) = ok_bokay"
proof -
  have n: "1 < length (greenlets no_phase_sys)"
    "pc (greenlets no_phase_sys ! 1) =
       Handler QueueWait (credentials (JStr ''p'') (JStr ''shard/0''))"
    "creds_match (worker_state no_phase_sys) (credentials (JStr ''p'') (JStr ''shard/0'')) =
       Inr True"
    "task_event (worker_state no_phase_sys) = None"
    "resp (greenlets no_phase_sys ! 1) = []"
    by (simp_all add: no_phase_sys_def run_defs)
  from queue_wait_acknowledges [OF n(1,2,3), of echo_factory echo_uow, THEN conjunct1,
      rule_format, OF n(4)] n(1,5)
  have i: "resp (greenlets (run echo_factory echo_uow 1 no_phase_sys) ! 1) = ok_bokay"
    by (simp add: goto_def)
  have h: "1 < length (greenlets waiting_sys)"
    "pc (greenlets waiting_sys ! 1) = Handler QueueWait (credentials (JStr ''p'') (JStr ''shard/0''))"
    "creds_match (worker_state waiting_sys) (credentials (JStr ''p'') (JStr ''shard/0'')) = Inr True"
    "task_event (worker_state waiting_sys) = Some 0 \<and> 0 < length (events waiting_sys) \<and>
       \<not> events waiting_sys ! 0"
    "resp (greenlets waiting_sys ! 1) = []"
    by (simp_all add: waiting_sys_eq creds_match_def credentials_def)
  note t = queue_wait_acknowledges [OF h(1,2,3), of echo_factory echo_uow, THEN conjunct2,
      rule_format, OF h(4), THEN conjunct2, rule_format]
  have a: "pc (greenlets (exec echo_factory echo_uow
         (run echo_factory echo_uow 1 waiting_sys) [Run 1]) ! 1) = WaitEvent 0"
    by (simp add: waiting_sys_eq run_defs)
  have b: "pc (greenlets (exec echo_factory echo_uow
         (run echo_factory echo_uow 1 waiting_sys) [EventEnd, Run 1]) ! 1) = Finished None"
    by (simp add: waiting_sys_eq run_defs)
  from t [of "[Run 1]"] t [of "[EventEnd, Run 1]"] a b h(5) i show ?thesis by simp
qed

section \<open>The join of the barrier\<close>

lemma done_line_not_in [simp]:
  "done_line \<notin> set ok_bokay" "done_line \<notin> set forbidden_credentials"
  "done_line \<notin> set forbidden_configured" "done_line \<notin> set join_begin"
  "done_line \<in> set join_done"
  by (simp_all add: done_line_def ok_bokay_def forbidden_credentials_def forbidden_configured_def
      join_begin_def join_done_def)

lemma shard_config_out:
  "shard_config ic iu w payload = (w', os, err) \<Longrightarrow> done_line \<notin> set os"
  by (auto simp: shard_config_def Let_def split: if_splits sum.splits)

lemma auth_request_out:
  "auth_request w payload = (os, r) \<Longrightarrow> done_line \<notin> set os"
  by (auto simp: auth_request_def split: sum.splits bool.splits)

lemma ring_init_out:
  "ring_init w payload = (w', os, err) \<Longrightarrow> done_line \<notin> set os"
  by (auto simp: ring_init_def split: prod.splits sum.splits bool.splits dest: auth_request_out)

lemma consumer_raise_own:
  assumes "g < length (greenlets s)"
  shows "resp (greenlets (consumer_raise g e s) ! g) = resp (greenlets s ! g)"
    and "\<exists>e'. pc (greenlets (consumer_raise g e s) ! g) = Crashed e'"
proof -
  have "resp (greenlets (consumer_raise g e s) ! g) = resp (greenlets s ! g) \<and>
        (\<exists>e'. pc (greenlets (consumer_raise g e s) ! g) = Crashed e')"
  proof (cases "finally_task_done s")
    case (Inl e')
    with assms show ?thesis by (simp add: consumer_raise_def)
  next
    case (Inr s1)
    from finally_task_done_frame(3) [OF Inr] assms have g1: "g < length (greenlets s1)" by simp
    from woke_resp [OF finally_task_done_woke [OF Inr assms]] g1 Inr show ?thesis
      by (simp add: consumer_raise_def)
  qed
  then show "resp (greenlets (consumer_raise g e s) ! g) = resp (greenlets s ! g)"
    and "\<exists>e'. pc (greenlets (consumer_raise g e s) ! g) = Crashed e'" by simp_all
qed

lemma consumer_take_own:
  assumes "g < length (greenlets s)"
  shows "resp (greenlets (consumer_take g q s) ! g) = resp (greenlets s ! g)"
    and "\<not> quiet (pc (greenlets (consumer_take g q s) ! g))"
proof -
  let ?s1 = "s\<lparr> queues := (queues s)[q := (queues s ! q)\<lparr> items := tl (items (queues s ! q)),
                taken := taken (queues s ! q) @ [hd (items (queues s ! q))] \<rparr>] \<rparr>"
  have g1: "g < length (greenlets ?s1)" using assms by simp
  from consumer_raise_own [OF g1, of AttributeError] assms
  show "resp (greenlets (consumer_take g q s) ! g) = resp (greenlets s ! g)"
    and "\<not> quiet (pc (greenlets (consumer_take g q s) ! g))"
    by (auto simp: consumer_take_def Let_def split: option.splits)
qed

lemma consumer_get_own:
  assumes "g < length (greenlets s)"
  shows "resp (greenlets (consumer_get g s) ! g) = resp (greenlets s ! g)"
    and "\<not> quiet (pc (greenlets (consumer_get g s) ! g))"
  using assms by (simp_all add: consumer_get_def consumer_take_own split: option.splits)

lemma consumer_return_own:
  assumes "g < length (greenlets s)"
  shows "\<not> quiet (pc (greenlets (consumer_return g s) ! g))"
proof (cases "finally_task_done s")
  case (Inl e')
  with assms show ?thesis by (simp add: consumer_return_def)
next
  case (Inr s1)
  from finally_task_done_frame(3) [OF Inr] assms have "g < length (greenlets s1)" by simp
  from consumer_get_own(2) [OF this] Inr show ?thesis by (simp add: consumer_return_def)
qed

text \<open>What the step of a greenlet makes of the greenlet itself.\<close>

lemma run_own:
  assumes "g < length (greenlets s)"
  shows "pc (greenlets (run ic iu g s) ! g) \<noteq> JoinWoken q"
    and "pc (greenlets (run ic iu g s) ! g) = JoinWait q \<Longrightarrow>
           run ic iu g s = s \<or> queues (run ic iu g s) = queues s \<and> 0 < unfinished (queues s ! q)"
proof -
  have "pc (greenlets (run ic iu g s) ! g) \<noteq> JoinWoken q \<and>
        (pc (greenlets (run ic iu g s) ! g) = JoinWait q \<longrightarrow>
           run ic iu g s = s \<or> queues (run ic iu g s) = queues s \<and> 0 < unfinished (queues s ! q))"
  proof (cases "pc (greenlets s ! g)")
    case (Handler r payload)
    show ?thesis
    proof (cases r)
      case ShardConfig
      with assms Handler show ?thesis by (auto simp: run_def split: prod.splits)
    next
      case ShardStop
      with assms Handler show ?thesis by (auto simp: run_def split: prod.splits)
    next
      case RingInit
      with assms Handler show ?thesis by (auto simp: run_def split: prod.splits)
    next
      case QueueWait
      with assms Handler show ?thesis
        by (auto simp: run_def queue_wait_def
            split: prod.splits sum.splits bool.splits option.splits if_splits)
    next
      case QueueJoin
      with assms Handler show ?thesis
        by (auto simp: run_def queue_join_def
            split: prod.splits sum.splits bool.splits option.splits if_splits)
    qed
  next
    case ConsumerStart
    with assms consumer_get_own(2) [OF assms] show ?thesis by (auto simp: run_def)
  next
    case (WaitEvent ev)
    with assms show ?thesis by (auto simp: run_def)
  next
    case (JoinWait q')
    with assms show ?thesis by (auto simp: run_def)
  next
    case (JoinWoken q')
    with assms show ?thesis by (auto simp: run_def)
  next
    case (BlockedGet q')
    with assms consumer_take_own(2) [OF assms, of q'] show ?thesis by (auto simp: run_def)
  next
    case (Perform q' payload)
    with assms show ?thesis by (auto simp: run_def)
  next
    case (Finished err)
    with assms show ?thesis by (auto simp: run_def)
  next
    case (Crashed e)
    with assms show ?thesis by (auto simp: run_def)
  qed
  then show "pc (greenlets (run ic iu g s) ! g) \<noteq> JoinWoken q"
    and "pc (greenlets (run ic iu g s) ! g) = JoinWait q \<Longrightarrow>
           run ic iu g s = s \<or> queues (run ic iu g s) = queues s \<and> 0 < unfinished (queues s ! q)"
    by simp_all
qed

lemma run_emits_done:
  assumes "g < length (greenlets s)"
    and "done_line \<notin> set (resp (greenlets s ! g))"
    and "done_line \<in> set (resp (greenlets (run ic iu g s) ! g))"
  shows "(\<exists>payload q. pc (greenlets s ! g) = Handler QueueJoin payload \<and>
            task_queue (worker_state s) = Some q \<and> unfinished (queues s ! q) = 0) \<or>
         (\<exists>q. pc (greenlets s ! g) = JoinWoken q)"
proof (cases "pc (greenlets s ! g)")
  case (Handler r payload)
  show ?thesis
  proof (cases r)
    case ShardConfig
    with assms Handler show ?thesis
      by (auto simp: run_def split: prod.splits dest: shard_config_out)
  next
    case ShardStop
    with assms Handler show ?thesis
      by (auto simp: run_def split: prod.splits)
  next
    case RingInit
    with assms Handler show ?thesis
      by (auto simp: run_def split: prod.splits dest: ring_init_out)
  next
    case QueueWait
    with assms Handler show ?thesis
      by (auto simp: run_def queue_wait_def
          split: prod.splits sum.splits bool.splits option.splits if_splits dest: auth_request_out)
  next
    case QueueJoin
    with assms Handler show ?thesis
      by (auto simp: run_def queue_join_def
          split: prod.splits sum.splits bool.splits option.splits if_splits dest: auth_request_out)
  qed
next
  case ConsumerStart
  with assms show ?thesis by (simp add: run_def consumer_get_own)
next
  case (WaitEvent ev)
  with assms show ?thesis by (auto simp: run_def split: if_splits)
next
  case (JoinWait q)
  with assms show ?thesis by (simp add: run_def)
next
  case (JoinWoken q)
  then show ?thesis by simp
next
  case (BlockedGet q)
  with assms show ?thesis by (auto simp: run_def consumer_take_own split: if_splits)
next
  case (Perform q payload)
  with assms show ?thesis by (simp add: run_def)
next
  case (Finished err)
  with assms show ?thesis by (simp add: run_def)
next
  case (Crashed e)
  with assms show ?thesis by (simp add: run_def)
qed

lemma sound_drained:
  assumes "sound s" and "q < length (queues s)" and "unfinished (queues s ! q) = 0"
  shows "drained s q"
proof -
  from assms(1,2) have "unfinished (queues s ! q) =
      length (items (queues s ! q)) + (if performing s q then 1 else 0)"
    unfolding sound_def coherent_def by blast
  with assms(2,3) show ?thesis by (simp add: drained_def split: if_splits)
qed

text \<open>
  What a step makes of a greenlet that does not take it, of the greenlets it creates,
  and of the queues.
\<close>

lemma step_new:
  assumes "h < length (greenlets (step ic iu s a))" and "\<not> h < length (greenlets s)"
  shows "(\<exists>r payload. pc (greenlets (step ic iu s a) ! h) = Handler r payload) \<or>
         pc (greenlets (step ic iu s a) ! h) = ConsumerStart"
  using assms
  by (cases a)
    (auto simp: run_frame consumer_return_frame consumer_raise_frame nth_append less_Suc_eq
      split: pc.splits option.splits if_splits)

lemma step_own:
  assumes "h < length (greenlets s)"
    and "a = Run h \<or> a = TaskReturns h \<or> (\<exists>e. a = TaskRaises h e)"
  shows "pc (greenlets (step ic iu s a) ! h) \<noteq> JoinWoken q \<or> step ic iu s a = s"
    and "pc (greenlets (step ic iu s a) ! h) = JoinWait q \<Longrightarrow>
           step ic iu s a = s \<or>
           queues (step ic iu s a) = queues s \<and> 0 < unfinished (queues s ! q)"
proof -
  from assms(2) consider (run) "a = Run h" | (ret) "a = TaskReturns h"
    | (exc) e where "a = TaskRaises h e" by blast
  then have "(pc (greenlets (step ic iu s a) ! h) \<noteq> JoinWoken q \<or> step ic iu s a = s) \<and>
      (pc (greenlets (step ic iu s a) ! h) = JoinWait q \<longrightarrow>
           step ic iu s a = s \<or>
           queues (step ic iu s a) = queues s \<and> 0 < unfinished (queues s ! q))"
  proof cases
    case run
    with run_own [OF assms(1), of ic iu q] show ?thesis by auto
  next
    case ret
    show ?thesis
    proof (cases "\<exists>q0 p. pc (greenlets s ! h) = Perform q0 p")
      case True
      with ret assms(1) consumer_return_own [OF assms(1)] show ?thesis by auto
    next
      case False
      with ret assms(1) have "step ic iu s a = s" by (auto split: pc.splits)
      then show ?thesis by simp
    qed
  next
    case exc
    show ?thesis
    proof (cases "\<exists>q0 p. pc (greenlets s ! h) = Perform q0 p")
      case True
      with exc assms(1) consumer_raise_own(2) [OF assms(1), of e] show ?thesis by auto
    next
      case False
      with exc assms(1) have "step ic iu s a = s" by (auto split: pc.splits)
      then show ?thesis by simp
    qed
  qed
  then show "pc (greenlets (step ic iu s a) ! h) \<noteq> JoinWoken q \<or> step ic iu s a = s"
    and "pc (greenlets (step ic iu s a) ! h) = JoinWait q \<Longrightarrow>
           step ic iu s a = s \<or>
           queues (step ic iu s a) = queues s \<and> 0 < unfinished (queues s ! q)"
    by simp_all
qed

lemma wf_JoinWait:
  "wf s \<Longrightarrow> h < length (greenlets s) \<Longrightarrow> pc (greenlets s ! h) = JoinWait q \<Longrightarrow> q < length (queues s)"
  unfolding wf_def by blast

lemma pending_step:
  assumes "pending s" and "wf s"
  shows "pending (step ic iu s a)"
  unfolding pending_def
proof (intro allI impI)
  fix h q
  assume h: "h < length (greenlets (step ic iu s a))"
    and j: "pc (greenlets (step ic iu s a) ! h) = JoinWait q"
  show "0 < unfinished (queues (step ic iu s a) ! q)"
  proof (cases "h < length (greenlets s)")
    case False
    from step_new [OF h False] j show ?thesis by auto
  next
    case old: True
    show ?thesis
    proof (cases "a = Run h \<or> a = TaskReturns h \<or> (\<exists>e. a = TaskRaises h e)")
      case True
      from step_own(2) [OF old True j]
      show ?thesis
      proof
        assume "step ic iu s a = s"
        with j old assms(1) show ?thesis by (simp add: pending_def)
      next
        assume "queues (step ic iu s a) = queues s \<and> 0 < unfinished (queues s ! q)"
        then show ?thesis by simp
      qed
    next
      case False
      then have "woke s (step ic iu s a) h" using old by (intro step_woke) auto
      with j have same: "greenlets (step ic iu s a) ! h = greenlets s ! h"
        and pos: "\<forall>q < length (queues s).
           pc (greenlets s ! h) = JoinWait q \<and> 0 < unfinished (queues s ! q) \<longrightarrow>
             0 < unfinished (queues (step ic iu s a) ! q)"
        unfolding woke_def by auto
      from same j have pj: "pc (greenlets s ! h) = JoinWait q" by simp
      from wf_JoinWait [OF assms(2) old pj] have "q < length (queues s)" .
      moreover from assms(1) old pj have "0 < unfinished (queues s ! q)"
        by (simp add: pending_def)
      ultimately show ?thesis using pos pj by blast
    qed
  qed
qed

lemma woken_origin:
  assumes "wf s" and "h < length (greenlets (step ic iu s a))"
    and "pc (greenlets (step ic iu s a) ! h) = JoinWoken q"
  shows "h < length (greenlets s) \<and>
         (pc (greenlets s ! h) = JoinWoken q \<or>
          pc (greenlets s ! h) = JoinWait q \<and>
          task_queue (worker_state (step ic iu s a)) = Some q \<and>
          q < length (queues (step ic iu s a)) \<and>
          unfinished (queues (step ic iu s a) ! q) = 0)"
proof (cases "h < length (greenlets s)")
  case False
  from step_new [OF assms(2) False] assms(3) show ?thesis by auto
next
  case old: True
  show ?thesis
  proof (cases "a = Run h \<or> a = TaskReturns h \<or> (\<exists>e. a = TaskRaises h e)")
    case True
    from step_own(1) [OF old True, of ic iu q] assms(3) have "step ic iu s a = s" by simp
    with assms(3) old show ?thesis by simp
  next
    case False
    then have "woke s (step ic iu s a) h" using old by (intro step_woke) auto
    then consider (same) "greenlets (step ic iu s a) ! h = greenlets s ! h"
      | (woken) q' where "task_queue (worker_state (step ic iu s a)) = Some q'"
          "pc (greenlets s ! h) = JoinWait q'"
          "q' < length (queues s) \<longrightarrow> unfinished (queues (step ic iu s a) ! q') = 0"
          "greenlets (step ic iu s a) ! h = (greenlets s ! h)\<lparr> pc := JoinWoken q' \<rparr>"
      unfolding woke_def by blast
    then show ?thesis
    proof cases
      case same
      with assms(3) old show ?thesis by simp
    next
      case woken
      from woken(4) assms(3) have q': "q' = q" by simp
      from wf_JoinWait [OF assms(1) old woken(2)] have "q' < length (queues s)" .
      with step_lengths(2) [of s ic iu a] woken old q' show ?thesis by simp
    qed
  qed
qed

lemma run_queue:
  "enq (queues (run ic iu g s) ! q) = enq (queues s ! q)"
  "unfinished (queues (run ic iu g s) ! q) \<le> unfinished (queues s ! q)"
proof -
  have "enq (queues (run ic iu g s) ! q) = enq (queues s ! q) \<and>
        unfinished (queues (run ic iu g s) ! q) \<le> unfinished (queues s ! q)"
  proof (cases "g < length (greenlets s)")
    case False
    then show ?thesis by (simp add: run_def)
  next
    case g: True
    show ?thesis
    proof (cases "pc (greenlets s ! g)")
      case (Handler r payload)
      from run_handler_quiet [OF g Handler, of ic iu] show ?thesis
        by (simp add: quiet_move_frame)
    qed (use g in \<open>simp_all add: run_def consumer_get_enq consumer_take_enq
          consumer_get_unfinished_le consumer_take_unfinished_le\<close>)
  qed
  then show "enq (queues (run ic iu g s) ! q) = enq (queues s ! q)"
    "unfinished (queues (run ic iu g s) ! q) \<le> unfinished (queues s ! q)" by simp_all
qed

lemma step_queue:
  assumes "q < length (queues s)"
  shows "length (enq (queues s ! q)) \<le> length (enq (queues (step ic iu s a) ! q))"
    and "length (enq (queues (step ic iu s a) ! q)) = length (enq (queues s ! q)) \<Longrightarrow>
           unfinished (queues (step ic iu s a) ! q) \<le> unfinished (queues s ! q)"
proof -
  have "length (enq (queues s ! q)) \<le> length (enq (queues (step ic iu s a) ! q)) \<and>
        (length (enq (queues (step ic iu s a) ! q)) = length (enq (queues s ! q)) \<longrightarrow>
           unfinished (queues (step ic iu s a) ! q) \<le> unfinished (queues s ! q))"
  proof (cases a)
    case (Request r payload)
    then show ?thesis by simp
  next
    case (Run g)
    then show ?thesis by (simp add: run_queue)
  next
    case (TaskReturns g)
    then show ?thesis
      by (simp add: consumer_return_enq consumer_return_unfinished_le split: pc.splits)
  next
    case (TaskRaises g e)
    then show ?thesis
      by (simp add: consumer_raise_enq consumer_raise_unfinished_le split: pc.splits)
  next
    case PrepTaskQueue
    with assms show ?thesis by (simp add: nth_append)
  next
    case (PutTaskQueue payload)
    show ?thesis
    proof (cases "task_queue (worker_state s)")
      case None
      with PutTaskQueue show ?thesis by simp
    next
      case (Some q0)
      with PutTaskQueue assms show ?thesis
        by (cases "q0 = q") (simp_all add: put_nowait_def)
    qed
  next
    case EventBegin
    then show ?thesis by simp
  next
    case EventEnd
    then show ?thesis by (simp split: option.splits)
  qed
  then show "length (enq (queues s ! q)) \<le> length (enq (queues (step ic iu s a) ! q))"
    and "length (enq (queues (step ic iu s a) ! q)) = length (enq (queues s ! q)) \<Longrightarrow>
           unfinished (queues (step ic iu s a) ! q) \<le> unfinished (queues s ! q)"
    by simp_all
qed

lemma drained_step:
  assumes "sound (step ic iu s a)" and "drained s q"
    and "length (enq (queues (step ic iu s a) ! q)) = length (enq (queues s ! q))"
  shows "drained (step ic iu s a) q"
proof -
  from assms(2) have q: "q < length (queues s)" and u: "unfinished (queues s ! q) = 0"
    by (simp_all add: drained_def)
  from q step_lengths(2) [of s ic iu a] have q': "q < length (queues (step ic iu s a))" by simp
  from step_queue(2) [OF q assms(3)] u have "unfinished (queues (step ic iu s a) ! q) = 0"
    by simp
  with assms(1) q' show ?thesis by (rule sound_drained)
qed

lemma exec_snoc: "exec ic iu s (acts @ [a]) = step ic iu (exec ic iu s acts) a"
  by (simp add: exec_def)

lemma admissible_snoc:
  "admissible ic iu s (acts @ [a]) \<longleftrightarrow>
     admissible ic iu s acts \<and> (a = PrepTaskQueue \<longrightarrow> idle (exec ic iu s acts))"
  by (induction acts arbitrary: s) (auto simp: exec_def)

lemma pending_exec:
  "admissible ic iu init_sys acts \<Longrightarrow> pending (exec ic iu init_sys acts)"
proof (induction acts rule: rev_induct)
  case Nil
  then show ?case by (simp add: exec_def pending_def init_sys_def)
next
  case (snoc a acts)
  from snoc.prems have adm: "admissible ic iu init_sys acts" by (simp add: admissible_snoc)
  from sound_exec [OF sound_init adm] have "wf (exec ic iu init_sys acts)"
    by (simp add: sound_def)
  with snoc.IH [OF adm] show ?case unfolding exec_snoc by (rule pending_step)
qed

text \<open>
  A greenlet scheduled to resume from \<^verbatim>\<open>join\<close> was scheduled by a step that left its
  queue, the current one, drained; and the queue is still drained if nothing has been
  put on it since.
\<close>

lemma woken_after_drain:
  assumes "admissible ic iu init_sys acts"
    and "g < length (greenlets (exec ic iu init_sys acts))"
    and "pc (greenlets (exec ic iu init_sys acts) ! g) = JoinWoken q"
  shows "q < length (queues (exec ic iu init_sys acts)) \<and>
    (\<exists>n < length acts.
       g < length (greenlets (exec ic iu init_sys (take n acts))) \<and>
       pc (greenlets (exec ic iu init_sys (take n acts)) ! g) = JoinWait q \<and>
       pc (greenlets (exec ic iu init_sys (take (Suc n) acts)) ! g) = JoinWoken q \<and>
       task_queue (worker_state (exec ic iu init_sys (take (Suc n) acts))) = Some q \<and>
       drained (exec ic iu init_sys (take (Suc n) acts)) q \<and>
       length (enq (queues (exec ic iu init_sys (take (Suc n) acts)) ! q)) \<le>
         length (enq (queues (exec ic iu init_sys acts) ! q)) \<and>
       (length (enq (queues (exec ic iu init_sys acts) ! q)) =
          length (enq (queues (exec ic iu init_sys (take (Suc n) acts)) ! q)) \<longrightarrow>
        drained (exec ic iu init_sys acts) q))"
  using assms
proof (induction acts rule: rev_induct)
  case Nil
  then show ?case by (simp add: exec_def init_sys_def)
next
  case (snoc a acts)
  let ?s = "exec ic iu init_sys acts"
  let ?s' = "step ic iu ?s a"
  from snoc.prems(1) have adm: "admissible ic iu init_sys acts"
    by (simp add: admissible_snoc)
  from sound_exec [OF sound_init adm] have snd: "sound ?s" .
  from sound_exec [OF sound_init snoc.prems(1)] have snd': "sound ?s'" by (simp add: exec_snoc)
  from snd have w: "wf ?s" by (simp add: sound_def)
  from snoc.prems(2,3) have g': "g < length (greenlets ?s')"
    and pc': "pc (greenlets ?s' ! g) = JoinWoken q" by (simp_all add: exec_snoc)
  from woken_origin [OF w g' pc'] have g: "g < length (greenlets ?s)"
    and or: "pc (greenlets ?s ! g) = JoinWoken q \<or>
          pc (greenlets ?s ! g) = JoinWait q \<and> task_queue (worker_state ?s') = Some q \<and>
          q < length (queues ?s') \<and> unfinished (queues ?s' ! q) = 0"
    by simp_all
  from or show ?case
  proof
    assume old: "pc (greenlets ?s ! g) = JoinWoken q"
    from snoc.IH [OF adm g old] obtain n where q: "q < length (queues ?s)"
      and n: "n < length acts"
      and a: "g < length (greenlets (exec ic iu init_sys (take n acts)))"
        "pc (greenlets (exec ic iu init_sys (take n acts)) ! g) = JoinWait q"
        "pc (greenlets (exec ic iu init_sys (take (Suc n) acts)) ! g) = JoinWoken q"
        "task_queue (worker_state (exec ic iu init_sys (take (Suc n) acts))) = Some q"
        "drained (exec ic iu init_sys (take (Suc n) acts)) q"
      and le: "length (enq (queues (exec ic iu init_sys (take (Suc n) acts)) ! q)) \<le>
         length (enq (queues ?s ! q))"
      and dr: "length (enq (queues ?s ! q)) =
          length (enq (queues (exec ic iu init_sys (take (Suc n) acts)) ! q)) \<Longrightarrow> drained ?s q"
      by blast
    from n have t: "take n (acts @ [a]) = take n acts" "take (Suc n) (acts @ [a]) = take (Suc n) acts"
      by simp_all
    from q step_lengths(2) [of ?s ic iu a] have q': "q < length (queues ?s')" by simp
    note mono = step_queue(1) [OF q, of ic iu a]
    have dr': "length (enq (queues ?s' ! q)) =
          length (enq (queues (exec ic iu init_sys (take (Suc n) acts)) ! q)) \<longrightarrow>
        drained ?s' q"
    proof
      assume eq: "length (enq (queues ?s' ! q)) =
          length (enq (queues (exec ic iu init_sys (take (Suc n) acts)) ! q))"
      from eq le mono have 1: "length (enq (queues ?s ! q)) =
          length (enq (queues (exec ic iu init_sys (take (Suc n) acts)) ! q))" by simp
      with eq have 2: "length (enq (queues ?s' ! q)) = length (enq (queues ?s ! q))" by simp
      from drained_step [OF snd' dr [OF 1] 2] show "drained ?s' q" .
    qed
    from le mono have le': "length (enq (queues (exec ic iu init_sys (take (Suc n) acts)) ! q)) \<le>
         length (enq (queues ?s' ! q))" by simp
    have n': "n < length (acts @ [a])" using n by simp
    from q' n' a le' dr' show ?thesis
      unfolding exec_snoc by (intro conjI exI [of _ n]) (simp_all only: t simp_thms)
  next
    assume new: "pc (greenlets ?s ! g) = JoinWait q \<and> task_queue (worker_state ?s') = Some q \<and>
          q < length (queues ?s') \<and> unfinished (queues ?s' ! q) = 0"
    then have d: "drained ?s' q" using snd' by (intro sound_drained) simp_all
    have t: "take (length acts) (acts @ [a]) = acts"
      "take (Suc (length acts)) (acts @ [a]) = acts @ [a]" by simp_all
    from new g pc' d show ?thesis
      unfolding exec_snoc
      by (intro conjI exI [of _ "length acts"]) (simp_all add: t exec_snoc)
  qed
qed

text \<open>
  Claim C6, as stated, fails. On the condition of its queue \<^verbatim>\<open>join\<close> is woken by the
  \<^verbatim>\<open>task_done\<close> that brings the count to zero, and it does not look at the count
  when it resumes. One payload is processed while a \<^verbatim>\<open>queue_join\<close> request waits;
  \<^verbatim>\<open>task_done\<close> schedules the waiting greenlet; a second payload is put before the hub
  switches to it; the greenlet then writes \<^verbatim>\<open>done\<close> while the current queue holds
  the second payload, not yet taken.
\<close>

theorem queue_join_done_after_drain_counterexample:
  "admissible echo_factory echo_uow init_sys late_put_run \<and>
   task_queue (worker_state (exec echo_factory echo_uow init_sys late_put_run)) = Some 0 \<and>
   items (queues (exec echo_factory echo_uow init_sys late_put_run) ! 0) = [JInt 2] \<and>
   unfinished (queues (exec echo_factory echo_uow init_sys late_put_run) ! 0) = 1 \<and>
   resp (greenlets (exec echo_factory echo_uow init_sys late_put_run) ! 2) = join_begin \<and>
   resp (greenlets (step echo_factory echo_uow
           (exec echo_factory echo_uow init_sys late_put_run) (Run 2)) ! 2) =
     join_begin @ join_done \<and>
   items (queues (step echo_factory echo_uow
           (exec echo_factory echo_uow init_sys late_put_run) (Run 2)) ! 0) = [JInt 2]"
  by (simp add: late_put_run_def draining_run_def run_defs admissible_defs Let_def)

text \<open>
  Claim C6, amended. In a run from a fresh Worker, with any interleaving of requests,
  enqueues, consumer steps and phases, in which the queue is replaced only when the
  Worker is idle: when the step of a greenlet writes the final \<^verbatim>\<open>done\<close>, the greenlet
  is a \<^verbatim>\<open>queue_join\<close> greenlet and either it has just called \<^verbatim>\<open>join\<close> on the current
  queue, which is drained, or it was blocked in \<^verbatim>\<open>join\<close> and an earlier step, the
  \<^verbatim>\<open>task_done\<close> that scheduled it, left its queue, then the current one, drained; in
  that case the queue is still drained when \<^verbatim>\<open>done\<close> is written provided no payload
  has been put on it in between. The join waits on the drain only, not on the event of
  the phase: an authorised \<^verbatim>\<open>queue_join\<close> greenlet that finds nothing unfinished
  writes \<^verbatim>\<open>done\<close> in the step in which it runs; a blocked one has something
  unfinished in its queue, and the step that leaves nothing unfinished schedules it;
  a scheduled one writes \<^verbatim>\<open>done\<close> in the step in which it runs.
\<close>

theorem queue_join_done_after_drain:
  assumes "admissible ic iu init_sys acts" and "s = exec ic iu init_sys acts"
    and "g < length (greenlets s)"
  shows "(done_line \<notin> set (resp (greenlets s ! g)) \<and>
          done_line \<in> set (resp (greenlets (step ic iu s (Run g)) ! g)) \<longrightarrow>
            (\<exists>q payload. pc (greenlets s ! g) = Handler QueueJoin payload \<and>
                 task_queue (worker_state s) = Some q \<and> drained s q) \<or>
            (\<exists>q n. pc (greenlets s ! g) = JoinWoken q \<and> n < length acts \<and>
                 g < length (greenlets (exec ic iu init_sys (take n acts))) \<and>
                 pc (greenlets (exec ic iu init_sys (take n acts)) ! g) = JoinWait q \<and>
                 pc (greenlets (exec ic iu init_sys (take (Suc n) acts)) ! g) = JoinWoken q \<and>
                 task_queue (worker_state (exec ic iu init_sys (take (Suc n) acts))) = Some q \<and>
                 drained (exec ic iu init_sys (take (Suc n) acts)) q \<and>
                 (length (enq (queues s ! q)) =
                    length (enq (queues (exec ic iu init_sys (take (Suc n) acts)) ! q)) \<longrightarrow>
                  drained s q))) \<and>
         (\<forall>q payload. pc (greenlets s ! g) = Handler QueueJoin payload \<and>
              creds_match (worker_state s) payload = Inr True \<and>
              task_queue (worker_state s) = Some q \<and> unfinished (queues s ! q) = 0 \<longrightarrow>
            done_line \<in> set (resp (greenlets (step ic iu s (Run g)) ! g))) \<and>
         (\<forall>q. pc (greenlets s ! g) = JoinWait q \<longrightarrow>
            0 < unfinished (queues s ! q) \<and>
            (\<forall>a. unfinished (queues (step ic iu s a) ! q) = 0 \<longrightarrow>
                 pc (greenlets (step ic iu s a) ! g) = JoinWoken q)) \<and>
         (\<forall>q. pc (greenlets s ! g) = JoinWoken q \<longrightarrow>
            done_line \<in> set (resp (greenlets (step ic iu s (Run g)) ! g)))"
proof (intro conjI allI impI)
  assume d: "done_line \<notin> set (resp (greenlets s ! g)) \<and>
          done_line \<in> set (resp (greenlets (step ic iu s (Run g)) ! g))"
  have snd: "sound s" using assms(1,2) sound_exec [OF sound_init] by blast
  from d assms(3) run_emits_done [of g s ic iu]
  consider (now) payload q where "pc (greenlets s ! g) = Handler QueueJoin payload"
      "task_queue (worker_state s) = Some q" "unfinished (queues s ! q) = 0"
    | (woken) q where "pc (greenlets s ! g) = JoinWoken q"
    by auto
  then show "(\<exists>q payload. pc (greenlets s ! g) = Handler QueueJoin payload \<and>
                 task_queue (worker_state s) = Some q \<and> drained s q) \<or>
            (\<exists>q n. pc (greenlets s ! g) = JoinWoken q \<and> n < length acts \<and>
                 g < length (greenlets (exec ic iu init_sys (take n acts))) \<and>
                 pc (greenlets (exec ic iu init_sys (take n acts)) ! g) = JoinWait q \<and>
                 pc (greenlets (exec ic iu init_sys (take (Suc n) acts)) ! g) = JoinWoken q \<and>
                 task_queue (worker_state (exec ic iu init_sys (take (Suc n) acts))) = Some q \<and>
                 drained (exec ic iu init_sys (take (Suc n) acts)) q \<and>
                 (length (enq (queues s ! q)) =
                    length (enq (queues (exec ic iu init_sys (take (Suc n) acts)) ! q)) \<longrightarrow>
                  drained s q))"
  proof cases
    case now
    from snd now(2) have "q < length (queues s)" by (simp add: sound_def wf_def)
    from sound_drained [OF snd this now(3)] now show ?thesis by blast
  next
    case woken
    from woken_after_drain [OF assms(1), of g q] assms(2,3) woken
    obtain n where "n < length acts"
      "g < length (greenlets (exec ic iu init_sys (take n acts)))"
      "pc (greenlets (exec ic iu init_sys (take n acts)) ! g) = JoinWait q"
      "pc (greenlets (exec ic iu init_sys (take (Suc n) acts)) ! g) = JoinWoken q"
      "task_queue (worker_state (exec ic iu init_sys (take (Suc n) acts))) = Some q"
      "drained (exec ic iu init_sys (take (Suc n) acts)) q"
      "length (enq (queues s ! q)) =
         length (enq (queues (exec ic iu init_sys (take (Suc n) acts)) ! q)) \<longrightarrow> drained s q"
      by blast
    with woken show ?thesis by blast
  qed
next
  fix q payload
  assume "pc (greenlets s ! g) = Handler QueueJoin payload \<and>
              creds_match (worker_state s) payload = Inr True \<and>
              task_queue (worker_state s) = Some q \<and> unfinished (queues s ! q) = 0"
  with assms(3) show "done_line \<in> set (resp (greenlets (step ic iu s (Run g)) ! g))"
    by (simp add: run_def queue_join_def auth_request_def)
next
  fix q
  assume j: "pc (greenlets s ! g) = JoinWait q"
  have snd: "sound s" using assms(1,2) sound_exec [OF sound_init] by blast
  have pen: "pending s" using assms(1,2) pending_exec by blast
  from pen assms(3) j show pos: "0 < unfinished (queues s ! q)" by (simp add: pending_def)
  fix a
  assume z: "unfinished (queues (step ic iu s a) ! q) = 0"
  from snd have w: "wf s" by (simp add: sound_def)
  from wf_JoinWait [OF w assms(3) j] have q: "q < length (queues s)" .
  show "pc (greenlets (step ic iu s a) ! g) = JoinWoken q"
  proof (cases "a = Run g \<or> a = TaskReturns g \<or> (\<exists>e. a = TaskRaises g e)")
    case True
    have "step ic iu s a = s"
      using True assms(3) j by (auto simp: run_def)
    with z pos show ?thesis by simp
  next
    case False
    then have "woke s (step ic iu s a) g" using assms(3) by (intro step_woke) auto
    with j q pos z show ?thesis unfolding woke_def by auto
  qed
next
  fix q
  assume "pc (greenlets s ! g) = JoinWoken q"
  with assms(3) show "done_line \<in> set (resp (greenlets (step ic iu s (Run g)) ! g))"
    by (simp add: run_def)
qed

lemma draining_run_eq:
  "exec echo_factory echo_uow init_sys draining_run =
     \<lparr> worker_state = configured_worker\<lparr> task_queue := Some 0 \<rparr>,
       queues = [\<lparr> items = [], unfinished = 0, enq = [JInt 1], taken = [JInt 1] \<rparr>],
       events = [],
       greenlets = [\<lparr> pc = Finished None, resp = ok_bokay \<rparr>,
                    \<lparr> pc = BlockedGet 0, resp = [] \<rparr>,
                    \<lparr> pc = JoinWoken 0, resp = join_begin \<rparr>] \<rparr>"
  by (simp add: draining_run_def configured_worker_def run_defs Let_def)

lemma draining_run_before:
  "exec echo_factory echo_uow init_sys (butlast draining_run) =
     \<lparr> worker_state = configured_worker\<lparr> task_queue := Some 0 \<rparr>,
       queues = [\<lparr> items = [], unfinished = 1, enq = [JInt 1], taken = [JInt 1] \<rparr>],
       events = [],
       greenlets = [\<lparr> pc = Finished None, resp = ok_bokay \<rparr>,
                    \<lparr> pc = Perform 0 (JInt 1), resp = [] \<rparr>,
                    \<lparr> pc = JoinWait 0, resp = join_begin \<rparr>] \<rparr>"
  by (simp add: draining_run_def configured_worker_def run_defs Let_def)

lemma phase_join_run_eq:
  "exec echo_factory echo_uow init_sys phase_join_run =
     \<lparr> worker_state = configured_worker\<lparr> task_event := Some 0, task_queue := Some 0 \<rparr>,
       queues = [\<lparr> items = [], unfinished = 0, enq = [], taken = [] \<rparr>],
       events = [False],
       greenlets = [\<lparr> pc = Finished None, resp = ok_bokay \<rparr>,
                    \<lparr> pc = BlockedGet 0, resp = [] \<rparr>,
                    \<lparr> pc = Handler QueueJoin (credentials (JStr ''p'') (JStr ''shard/0'')),
                      resp = [] \<rparr>] \<rparr>"
  by (simp add: phase_join_run_def configured_worker_def run_defs Let_def)

lemma draining_run_admissible:
  "admissible echo_factory echo_uow init_sys draining_run"
  "admissible echo_factory echo_uow init_sys (butlast draining_run)"
  "admissible echo_factory echo_uow init_sys phase_join_run"
  by (simp_all add: draining_run_def phase_join_run_def run_defs admissible_defs Let_def)

lemma draining_run_prefixes:
  assumes "n < length draining_run"
    and "2 < length (greenlets (exec echo_factory echo_uow init_sys (take n draining_run)))"
    and "pc (greenlets (exec echo_factory echo_uow init_sys (take n draining_run)) ! 2) = JoinWait 0"
  shows "length (enq (queues (exec echo_factory echo_uow init_sys (take (Suc n) draining_run)) ! 0)) = 1"
proof -
  from assms(1) consider "n = 0" | "n = 1" | "n = 2" | "n = 3" | "n = 4" | "n = 5" | "n = 6"
    | "n = 7" | "n = 8"
    by (simp add: draining_run_def) arith
  then show ?thesis
    using assms(2,3)
    by cases (simp_all add: draining_run_def run_defs Let_def)
qed


theorem queue_join_done_after_drain_witness:
  "admissible echo_factory echo_uow init_sys draining_run \<and>
   resp (greenlets (exec echo_factory echo_uow init_sys draining_run) ! 2) = join_begin \<and>
   resp (greenlets (step echo_factory echo_uow
           (exec echo_factory echo_uow init_sys draining_run) (Run 2)) ! 2) =
     join_begin @ join_done \<and>
   (\<exists>n < length draining_run.
      pc (greenlets (exec echo_factory echo_uow init_sys (take n draining_run)) ! 2) = JoinWait 0 \<and>
      pc (greenlets (exec echo_factory echo_uow init_sys (take (Suc n) draining_run)) ! 2) =
        JoinWoken 0 \<and>
      drained (exec echo_factory echo_uow init_sys (take (Suc n) draining_run)) 0) \<and>
   drained (exec echo_factory echo_uow init_sys draining_run) 0 \<and>
   0 < unfinished (queues (exec echo_factory echo_uow init_sys (butlast draining_run)) ! 0) \<and>
   pc (greenlets (step echo_factory echo_uow
         (exec echo_factory echo_uow init_sys (butlast draining_run)) (TaskReturns 1)) ! 2) =
     JoinWoken 0 \<and>
   task_event (worker_state (exec echo_factory echo_uow init_sys phase_join_run)) = Some 0 \<and>
   \<not> events (exec echo_factory echo_uow init_sys phase_join_run) ! 0 \<and>
   done_line \<in> set (resp (greenlets (step echo_factory echo_uow
         (exec echo_factory echo_uow init_sys phase_join_run) (Run 2)) ! 2))"
proof -
  let ?s = "exec echo_factory echo_uow init_sys draining_run"
  let ?b = "exec echo_factory echo_uow init_sys (butlast draining_run)"
  let ?p = "exec echo_factory echo_uow init_sys phase_join_run"
  have g: "2 < length (greenlets ?s)" and pcs: "pc (greenlets ?s ! 2) = JoinWoken 0"
    and r0: "resp (greenlets ?s ! 2) = join_begin"
    by (simp_all add: draining_run_eq)
  have r: "resp (greenlets (step echo_factory echo_uow ?s (Run 2)) ! 2) = join_begin @ join_done"
    unfolding draining_run_eq by (simp add: run_def goto_def)
  have d: "done_line \<notin> set (resp (greenlets ?s ! 2)) \<and>
           done_line \<in> set (resp (greenlets (step echo_factory echo_uow ?s (Run 2)) ! 2))"
    unfolding r r0 by simp
  have e: "length (enq (queues ?s ! 0)) = 1" by (simp add: draining_run_eq)
  note t = queue_join_done_after_drain [OF draining_run_admissible(1) refl g]
  from t [THEN conjunct1, rule_format, OF d] pcs
  obtain n where n: "n < length draining_run"
    "2 < length (greenlets (exec echo_factory echo_uow init_sys (take n draining_run)))"
    "pc (greenlets (exec echo_factory echo_uow init_sys (take n draining_run)) ! 2) = JoinWait 0"
    "pc (greenlets (exec echo_factory echo_uow init_sys (take (Suc n) draining_run)) ! 2) =
        JoinWoken 0"
    "drained (exec echo_factory echo_uow init_sys (take (Suc n) draining_run)) 0"
    "length (enq (queues ?s ! 0)) =
       length (enq (queues (exec echo_factory echo_uow init_sys (take (Suc n) draining_run)) ! 0)) \<longrightarrow>
     drained ?s 0"
    by auto
  from n(1,3,4,5)
  have 1: "\<exists>n < length draining_run.
      pc (greenlets (exec echo_factory echo_uow init_sys (take n draining_run)) ! 2) = JoinWait 0 \<and>
      pc (greenlets (exec echo_factory echo_uow init_sys (take (Suc n) draining_run)) ! 2) =
        JoinWoken 0 \<and>
      drained (exec echo_factory echo_uow init_sys (take (Suc n) draining_run)) 0"
    by blast
  from n(6) draining_run_prefixes [OF n(1,2,3)] e have 0: "drained ?s 0" by simp
  from t [THEN conjunct2, THEN conjunct2, THEN conjunct2, rule_format, OF pcs]
  have 5: "done_line \<in> set (resp (greenlets (step echo_factory echo_uow ?s (Run 2)) ! 2))" .
  have gb: "2 < length (greenlets ?b)" and pcb: "pc (greenlets ?b ! 2) = JoinWait 0"
    by (simp_all add: draining_run_before)
  have zb: "unfinished (queues (step echo_factory echo_uow ?b (TaskReturns 1)) ! 0) = 0"
    unfolding draining_run_before by (simp add: configured_worker_def run_defs Let_def)
  note tb = queue_join_done_after_drain [OF draining_run_admissible(2) refl gb,
      THEN conjunct2, THEN conjunct2, THEN conjunct1, rule_format, OF pcb]
  from tb [THEN conjunct1] have 2: "0 < unfinished (queues ?b ! 0)" .
  from tb [THEN conjunct2, rule_format, OF zb]
  have 3: "pc (greenlets (step echo_factory echo_uow ?b (TaskReturns 1)) ! 2) = JoinWoken 0" .
  have gp: "2 < length (greenlets ?p)"
    and hp: "pc (greenlets ?p ! 2) = Handler QueueJoin (credentials (JStr ''p'') (JStr ''shard/0'')) \<and>
        creds_match (worker_state ?p) (credentials (JStr ''p'') (JStr ''shard/0'')) = Inr True \<and>
        task_queue (worker_state ?p) = Some 0 \<and> unfinished (queues ?p ! 0) = 0"
    and ep: "task_event (worker_state ?p) = Some 0" "\<not> events ?p ! 0"
    by (simp_all add: phase_join_run_eq configured_worker_def creds_match_def credentials_def)
  from queue_join_done_after_drain [OF draining_run_admissible(3) refl gp,
      THEN conjunct2, THEN conjunct1, rule_format, OF hp]
  have 4: "done_line \<in> set (resp (greenlets (step echo_factory echo_uow ?p (Run 2)) ! 2))" .
  from draining_run_admissible(1) r0 r 0 1 2 3 ep 4 5 show ?thesis by blast
qed

section \<open>One consumer, in arrival order\<close>

text \<open>
  Claim C2, as stated, fails. \<^verbatim>\<open>prep_task_queue\<close> spawns a consumer at every call and
  stops none, and a consumer reads the field \<^verbatim>\<open>_task_queue\<close> anew at every \<^verbatim>\<open>get\<close>
  and \<^verbatim>\<open>task_done\<close>. After two calls in a row, with no payload anywhere, both consumers
  block in \<^verbatim>\<open>get\<close> on the second queue; two payloads put there are then inside
  \<^verbatim>\<open>perform_task\<close> at the same time.
\<close>

theorem single_consumer_counterexample:
  "consumers_on_current (exec echo_factory echo_uow init_sys double_prep_run) = [1, 2] \<and>
   map pc (greenlets (exec echo_factory echo_uow init_sys
      (double_prep_run @ [PutTaskQueue (JInt 1), PutTaskQueue (JInt 2), Run 1, Run 2]))) =
     [Finished None, Perform 1 (JInt 1), Perform 1 (JInt 2)]"
  by (simp add: double_prep_run_def run_defs consumers_on_current_def attached_def upt_rec Let_def)

lemma filter_unique_length:
  assumes "\<And>a b. P a \<Longrightarrow> P b \<Longrightarrow> a = b" and "distinct xs"
  shows "length (filter P xs) \<le> 1"
  using assms(2)
proof (induction xs)
  case Nil
  then show ?case by simp
next
  case (Cons x xs)
  show ?case
  proof (cases "P x")
    case True
    have "filter P xs = []"
    proof (rule ccontr)
      assume "filter P xs \<noteq> []"
      then obtain y where "y \<in> set xs" "P y"
        by (metis filter_False)
      with True assms(1) Cons.prems show False by auto
    qed
    with True show ?thesis by simp
  next
    case False
    with Cons show ?thesis by simp
  qed
qed


text \<open>
  Claim C2, amended. In a run from a fresh Worker in which \<^verbatim>\<open>prep_task_queue\<close> is
  called only when the Worker is idle (every consumer spawned before is blocked in
  \<^verbatim>\<open>get\<close> and the current queue is empty): at most one consumer drains the current
  queue, and exactly one as long as no consumer has ended by an exception; the payloads
  of a queue are taken, and handed to \<^verbatim>\<open>perform_task\<close>, in the order in which they
  were put, each once; a payload stays counted in \<^verbatim>\<open>unfinished_tasks\<close> while its
  \<^verbatim>\<open>perform_task\<close> call has not returned; and such a call runs on a payload of the
  current queue only.
\<close>

theorem single_consumer_fifo:
  assumes "admissible ic iu init_sys acts" and "s = exec ic iu init_sys acts"
  shows "length (consumers_on_current s) \<le> 1 \<and>
    (task_queue (worker_state s) \<noteq> None \<and>
     (\<forall>g < length (greenlets s). \<forall>e. pc (greenlets s ! g) \<noteq> Crashed e) \<longrightarrow>
       length (consumers_on_current s) = 1) \<and>
    (\<forall>q < length (queues s).
       enq (queues s ! q) = taken (queues s ! q) @ items (queues s ! q) \<and>
       unfinished (queues s ! q) =
         length (items (queues s ! q)) + (if performing s q then 1 else 0)) \<and>
    (\<forall>g < length (greenlets s). \<forall>q payload.
       pc (greenlets s ! g) = Perform q payload \<longrightarrow> task_queue (worker_state s) = Some q)"
proof -
  have snd: "sound s" using assms sound_exec [OF sound_init] by blast
  then have uniq: "\<And>a b. attached s a \<Longrightarrow> attached s b \<Longrightarrow> a = b"
    unfolding sound_def coherent_def by blast
  have le: "length (consumers_on_current s) \<le> 1"
    unfolding consumers_on_current_def
    by (rule filter_unique_length [OF uniq]) simp_all
  have one: "length (consumers_on_current s) = 1"
    if "task_queue (worker_state s) \<noteq> None"
      "\<forall>g < length (greenlets s). \<forall>e. pc (greenlets s ! g) \<noteq> Crashed e"
  proof -
    from snd that obtain g where g: "attached s g"
      unfolding sound_def coherent_def by blast
    then have "g \<in> set (consumers_on_current s)"
      by (simp add: consumers_on_current_def attached_iff)
    then have "0 < length (consumers_on_current s)" by (cases "consumers_on_current s") auto
    with le show ?thesis by linarith
  qed
  from snd le one show ?thesis
    unfolding sound_def coherent_def fifo_def by blast
qed

lemma two_phase_run_eq:
  "exec echo_factory echo_uow init_sys two_phase_run =
     \<lparr> worker_state = configured_worker\<lparr> task_queue := Some 1 \<rparr>,
       queues = [\<lparr> items = [], unfinished = 0, enq = [JInt 1, JInt 2], taken = [JInt 1, JInt 2] \<rparr>,
                 \<lparr> items = [], unfinished = 1, enq = [JInt 3], taken = [JInt 3] \<rparr>],
       events = [],
       greenlets = [\<lparr> pc = Finished None, resp = ok_bokay \<rparr>,
                    \<lparr> pc = BlockedGet 0, resp = [] \<rparr>,
                    \<lparr> pc = Perform 1 (JInt 3), resp = [] \<rparr>] \<rparr>"
  by (simp add: two_phase_run_def configured_worker_def run_defs Let_def)

lemma two_phase_run_admissible: "admissible echo_factory echo_uow init_sys two_phase_run"
  by (simp add: two_phase_run_def run_defs admissible_defs Let_def)


theorem single_consumer_fifo_witness:
  "admissible echo_factory echo_uow init_sys two_phase_run \<and>
   length (consumers_on_current (exec echo_factory echo_uow init_sys two_phase_run)) = 1 \<and>
   enq (queues (exec echo_factory echo_uow init_sys two_phase_run) ! 0) = [JInt 1, JInt 2] \<and>
   taken (queues (exec echo_factory echo_uow init_sys two_phase_run) ! 0) = [JInt 1, JInt 2] \<and>
   unfinished (queues (exec echo_factory echo_uow init_sys two_phase_run) ! 1) = 1 \<and>
   performing (exec echo_factory echo_uow init_sys two_phase_run) 1"
proof -
  let ?s = "exec echo_factory echo_uow init_sys two_phase_run"
  note t = single_consumer_fifo [OF two_phase_run_admissible refl]
  have c: "task_queue (worker_state ?s) \<noteq> None \<and>
     (\<forall>g < length (greenlets ?s). \<forall>e. pc (greenlets ?s ! g) \<noteq> Crashed e)"
    by (simp add: two_phase_run_eq less_Suc_eq numeral_3_eq_3 all_conj_distrib)
  from t [THEN conjunct2, THEN conjunct1, rule_format, OF c]
  have one: "length (consumers_on_current ?s) = 1" .
  have q: "(1::nat) < length (queues ?s)" by (simp add: two_phase_run_eq)
  have u: "unfinished (queues ?s ! 1) = 1" "items (queues ?s ! 1) = []"
    "enq (queues ?s ! 0) = [JInt 1, JInt 2]" "taken (queues ?s ! 0) = [JInt 1, JInt 2]"
    by (simp_all add: two_phase_run_eq)
  from t [THEN conjunct2, THEN conjunct2, THEN conjunct1, rule_format, OF q, THEN conjunct2]
  have "unfinished (queues ?s ! 1) =
          length (items (queues ?s ! 1)) + (if performing ?s 1 then 1 else 0)" .
  then have "(1::nat) = 0 + (if performing ?s 1 then 1 else 0)"
    by (simp only: u list.size)
  then have p: "performing ?s 1" by (cases "performing ?s 1") simp_all
  from one p two_phase_run_admissible u show ?thesis by blast
qed

section \<open>A payload on which the strategy fails\<close>

lemma finally_task_done_unfinished:
  assumes "finally_task_done s = Inr s'" and "task_queue (worker_state s) \<noteq> Some q"
  shows "unfinished (queues s' ! q) = unfinished (queues s ! q)"
  using assms
  by (auto simp: finally_task_done_def nth_list_update split: option.splits sum.splits)

lemma consumer_raise_unfinished:
  assumes "task_queue (worker_state s) \<noteq> Some q"
  shows "unfinished (queues (consumer_raise g e s) ! q) = unfinished (queues s ! q)"
  using assms finally_task_done_unfinished [of s _ q]
  by (auto simp: consumer_raise_def split: sum.splits)

lemma take_unfinished:
  "unfinished ((qs[q' := (qs ! q')\<lparr> items := xs, taken := ys \<rparr>]) ! q) = unfinished (qs ! q)"
  by (cases "q' < length qs") (simp_all add: nth_list_update list_update_beyond)

lemma consumer_take_unfinished:
  assumes "task_queue (worker_state s) \<noteq> Some q"
  shows "unfinished (queues (consumer_take g q' s) ! q) = unfinished (queues s ! q)"
  using assms
  by (simp add: consumer_take_def Let_def consumer_raise_unfinished take_unfinished
      split: option.splits)

lemma consumer_get_unfinished:
  assumes "task_queue (worker_state s) \<noteq> Some q"
  shows "unfinished (queues (consumer_get g s) ! q) = unfinished (queues s ! q)"
  using assms consumer_take_unfinished [OF assms]
  by (auto simp: consumer_get_def split: option.splits)

lemma consumer_return_unfinished:
  assumes "task_queue (worker_state s) \<noteq> Some q"
  shows "unfinished (queues (consumer_return g s) ! q) = unfinished (queues s ! q)"
proof (cases "finally_task_done s")
  case (Inl e)
  then show ?thesis by (simp add: consumer_return_def)
next
  case (Inr s')
  with assms finally_task_done_frame(1) [OF Inr] finally_task_done_unfinished [OF Inr assms]
  show ?thesis by (simp add: consumer_return_def consumer_get_unfinished)
qed

lemma run_unfinished:
  assumes "task_queue (worker_state s) \<noteq> Some q"
  shows "unfinished (queues (run ic iu g s) ! q) = unfinished (queues s ! q)"
proof (cases "g < length (greenlets s)")
  case False
  then show ?thesis by (simp add: run_def)
next
  case g: True
  show ?thesis
  proof (cases "pc (greenlets s ! g)")
    case (Handler r payload)
    from run_handler_quiet [OF g Handler, of ic iu] show ?thesis
      by (simp add: quiet_move_frame)
  qed (use g assms in \<open>simp_all add: run_def consumer_get_unfinished consumer_take_unfinished\<close>)
qed


lemma stuck_step:
  assumes "stuck j q rs s"
  shows "stuck j q rs (step ic iu s a)"
proof -
  from assms have j: "j < length (greenlets s)" and pj: "pc (greenlets s ! j) = JoinWait q"
    and rj: "resp (greenlets s ! j) = rs"
    and q: "q < length (queues s)" and u: "0 < unfinished (queues s ! q)"
    and live: "task_queue (worker_state s) = Some q \<Longrightarrow> h < length (greenlets s) \<Longrightarrow>
         quiet (pc (greenlets s ! h)) \<or> (\<exists>e. pc (greenlets s ! h) = Crashed e)" for h
    by (auto simp: stuck_def)
  from assms obtain q' where tq: "task_queue (worker_state s) = Some q'" "q' < length (queues s)"
    by (auto simp: stuck_def)
  have runj: "run ic iu j s = s" using j pj by (simp add: run_def)
  have keep: "greenlets s' ! j = greenlets s ! j"
    if "woke s s' j" "task_queue (worker_state s) \<noteq> Some q" for s' :: "'a sys"
    using woke_other [OF that(1) pj that(2)] .
  show ?thesis
  proof (cases a)
    case (Request r payload)
    with assms show ?thesis
      by (auto simp: stuck_def nth_append less_Suc_eq)
  next
    case (Run h)
    show ?thesis
    proof (cases "h = j")
      case True
      with Run runj assms show ?thesis by simp
    next
      case hj: False
      show ?thesis
      proof (cases "q' = q")
        case False
        with tq have ne: "task_queue (worker_state s) \<noteq> Some q" by simp
        from hj j have "woke s (run ic iu h s) j" by (intro run_woke) simp_all
        from keep [OF this ne] ne assms hj Run tq show ?thesis
          by (simp add: stuck_def run_frame run_unfinished)
      next
        case True
        show ?thesis
        proof (cases "h < length (greenlets s)")
          case False
          with Run assms show ?thesis by (simp add: run_def)
        next
          case h: True
          from live [OF _ h] tq True
          consider "quiet (pc (greenlets s ! h))" | e where "pc (greenlets s ! h) = Crashed e"
            by auto
          then show ?thesis
          proof cases
            case 2
            with Run h assms show ?thesis by (simp add: run_def)
          next
            case 1
            have qm: "quiet_move h s (run ic iu h s) \<or> run ic iu h s = s"
            proof (cases "pc (greenlets s ! h)")
              case (Handler r payload)
              with run_handler_quiet [OF h Handler, of ic iu] show ?thesis by simp
            next
              case (WaitEvent ev)
              with h show ?thesis
                by (auto simp: run_def intro!: goto_quiet_move)
            next
              case (JoinWait q0)
              with h show ?thesis by (simp add: run_def)
            next
              case (JoinWoken q0)
              with h show ?thesis
                by (auto simp: run_def intro!: goto_quiet_move)
            next
              case (Finished err)
              with h show ?thesis by (simp add: run_def)
            qed (use 1 in simp_all)
            then show ?thesis
            proof
              assume "run ic iu h s = s"
              with Run assms show ?thesis by simp
            next
              assume m: "quiet_move h s (run ic iu h s)"
              have other: "greenlets (run ic iu h s) ! k = greenlets s ! k"
                if "k \<noteq> h" for k
                using that quiet_move_frame(5) [OF m] by simp
              have "quiet (pc (greenlets (run ic iu h s) ! h))"
                using quiet_move_frame(6) [OF m h] .
              with other live [OF _ _] tq True
              have live': "quiet (pc (greenlets (run ic iu h s) ! k)) \<or>
                  (\<exists>e. pc (greenlets (run ic iu h s) ! k) = Crashed e)"
                if "k < length (greenlets s)" for k
                using that by (cases "k = h") auto
              from assms hj tq live' other [of j] show ?thesis
                unfolding Run
                by (simp add: stuck_def run_frame quiet_move_frame(1) [OF m])
            qed
          qed
        qed
      qed
    qed
  next
    case (TaskReturns h)
    show ?thesis
    proof (cases "h < length (greenlets s) \<and> (\<exists>q0 p. pc (greenlets s ! h) = Perform q0 p)")
      case False
      with TaskReturns assms show ?thesis by (auto split: pc.splits)
    next
      case True
      then obtain q0 p where h: "h < length (greenlets s)" "pc (greenlets s ! h) = Perform q0 p"
        by auto
      with pj have hj: "h \<noteq> j" by auto
      from h live [of h] have ne: "task_queue (worker_state s) \<noteq> Some q" by auto
      from h TaskReturns have st: "step ic iu s a = consumer_return h s" by simp
      from hj j have "woke s (consumer_return h s) j" by (intro consumer_return_woke) simp_all
      from keep [OF this ne] assms hj tq ne show ?thesis
        unfolding st
        by (simp add: stuck_def consumer_return_frame consumer_return_unfinished)
    qed
  next
    case (TaskRaises h e)
    show ?thesis
    proof (cases "h < length (greenlets s) \<and> (\<exists>q0 p. pc (greenlets s ! h) = Perform q0 p)")
      case False
      with TaskRaises assms show ?thesis by (auto split: pc.splits)
    next
      case True
      then obtain q0 p where h: "h < length (greenlets s)" "pc (greenlets s ! h) = Perform q0 p"
        by auto
      with pj have hj: "h \<noteq> j" by auto
      from h live [of h] have ne: "task_queue (worker_state s) \<noteq> Some q" by auto
      from h TaskRaises have st: "step ic iu s a = consumer_raise h e s" by simp
      from hj j have "woke s (consumer_raise h e s) j" by (intro consumer_raise_woke) simp_all
      from keep [OF this ne] assms hj tq ne show ?thesis
        unfolding st
        by (simp add: stuck_def consumer_raise_frame consumer_raise_unfinished)
    qed
  next
    case PrepTaskQueue
    with assms show ?thesis
      by (auto simp: stuck_def nth_append)
  next
    case (PutTaskQueue payload)
    with assms tq show ?thesis
      by (auto simp: stuck_def nth_list_update put_nowait_def)
  next
    case EventBegin
    with assms show ?thesis by (auto simp: stuck_def)
  next
    case EventEnd
    with assms show ?thesis by (auto simp: stuck_def split: option.splits)
  qed
qed

lemma stuck_exec: "stuck j q rs s \<Longrightarrow> stuck j q rs (exec ic iu s acts)"
proof (induction acts arbitrary: s)
  case Nil
  then show ?case by (simp add: exec_def)
next
  case (Cons a acts)
  from Cons.prems have "stuck j q rs (step ic iu s a)" by (rule stuck_step)
  from Cons.IH [OF this] show ?case by (simp add: exec_def)
qed

lemma failing_run_eq:
  "exec echo_factory echo_uow init_sys failing_run =
     \<lparr> worker_state = configured_worker\<lparr> task_queue := Some 0 \<rparr>,
       queues = [\<lparr> items = [JInt 2], unfinished = 1, enq = [JInt 1, JInt 2], taken = [JInt 1] \<rparr>],
       events = [],
       greenlets = [\<lparr> pc = Finished None, resp = ok_bokay \<rparr>,
                    \<lparr> pc = Crashed (Failure ''bad payload''), resp = [] \<rparr>,
                    \<lparr> pc = JoinWait 0, resp = join_begin \<rparr>] \<rparr>"
  by (simp add: failing_run_def configured_worker_def run_defs Let_def)

text \<open>
  Claim C7, evaluated where it fails. Two payloads are in the queue, a \<^verbatim>\<open>queue_join\<close>
  request waits, and \<^verbatim>\<open>perform_task\<close> raises on the first payload. The \<^verbatim>\<open>finally\<close>
  clause calls \<^verbatim>\<open>task_done\<close> (the count goes from 2 to 1); the exception then leaves
  the loop and ends the consumer; the second payload stays in the queue, and whatever
  happens afterwards the \<^verbatim>\<open>queue_join\<close> greenlet is still blocked, its \<^verbatim>\<open>done\<close> not
  written.
\<close>

theorem failing_payload_blocks_join:
  "pc (greenlets (exec echo_factory echo_uow init_sys failing_run) ! 1) =
     Crashed (Failure ''bad payload'') \<and>
   items (queues (exec echo_factory echo_uow init_sys failing_run) ! 0) = [JInt 2] \<and>
   unfinished (queues (exec echo_factory echo_uow init_sys (butlast failing_run)) ! 0) = 2 \<and>
   unfinished (queues (exec echo_factory echo_uow init_sys failing_run) ! 0) = 1 \<and>
   (\<forall>acts.
      pc (greenlets (exec echo_factory echo_uow init_sys (failing_run @ acts)) ! 2) = JoinWait 0 \<and>
      resp (greenlets (exec echo_factory echo_uow init_sys (failing_run @ acts)) ! 2) = join_begin \<and>
      0 < unfinished (queues (exec echo_factory echo_uow init_sys (failing_run @ acts)) ! 0))"
proof -
  let ?s = "exec echo_factory echo_uow init_sys failing_run"
  have "stuck 2 0 join_begin ?s"
    unfolding failing_run_eq
    by (simp add: stuck_def configured_worker_def less_Suc_eq numeral_3_eq_3 all_conj_distrib)
  from stuck_exec [OF this, of echo_factory echo_uow]
  have "\<forall>acts. stuck 2 0 join_begin (exec echo_factory echo_uow init_sys (failing_run @ acts))"
    by (simp add: exec_append)
  moreover have "unfinished (queues (exec echo_factory echo_uow init_sys (butlast failing_run)) ! 0) = 2"
    by (simp add: failing_run_def run_defs Let_def)
  ultimately show ?thesis
    by (simp add: stuck_def failing_run_eq)
qed

end
